theory Spec2Isabelle
  imports Main "HOL-Library.Multiset" "HOL-Library.List_Lexorder" "HOL-Library.Product_Lexorder"
begin

section \<open>The search engine of \<^verbatim>\<open>search_algorithms/part_a.py\<close>\<close>

text \<open>
  The class \<^verbatim>\<open>Search\<close> solves the puzzle "sort a sequence by swapping neighbours" with
  six strategies. A state is a Python list of numbers, which the engine compares,
  subtracts and adds; the numbers are modelled as Python's unbounded integers, with
  exact arithmetic. The identity \<^verbatim>\<open>tuple(state)\<close> of a state holds the same values in
  the same order and is compared by value, so a state and its identity are the same
  \<open>int list\<close> here.
\<close>

subsection \<open>Data model\<close>

type_synonym state = "int list"
type_synonym path = "state list"

datatype error = IndexError | ValueError

record Search =
  initial_state :: state
  goal_state :: state
  state_length :: nat

text \<open>\<^verbatim>\<open>Search.__init__\<close>: the goal is \<^verbatim>\<open>sorted(initial_state.copy())\<close>.\<close>

definition new_Search :: "state \<Rightarrow> Search" where
  "new_Search initial =
     \<lparr>initial_state = initial, goal_state = sort initial, state_length = length initial\<rparr>"

subsection \<open>Heuristics and costs\<close>

text \<open>
  \<^verbatim>\<open>inversion_heuristic\<close>: \<^verbatim>\<open>sum(1 for i in range(len(state)) for j in range(i + 1, len(state))
  if state[i] > state[j])\<close>. Both indices stay below \<^verbatim>\<open>len(state)\<close>, so no read fails.
\<close>

definition inversion_heuristic :: "state \<Rightarrow> int" where
  "inversion_heuristic state =
     sum_list [1. i \<leftarrow> [0..<length state], j \<leftarrow> [i + 1..<length state], state ! i > state ! j]"

text \<open>
  The three functions below read \<^verbatim>\<open>state[i]\<close> and \<^verbatim>\<open>self.goal_state[i]\<close> (or
  \<^verbatim>\<open>self.initial_state[i]\<close>) for every \<^verbatim>\<open>i\<close> in \<^verbatim>\<open>range(self.state_length)\<close>. Python raises
  IndexError at the first index that is out of range of either list, which happens
  exactly when one of the lists is shorter than \<^verbatim>\<open>state_length\<close>.
\<close>

definition misplaced_tiles_heuristic :: "Search \<Rightarrow> state \<Rightarrow> error + int" where
  "misplaced_tiles_heuristic self state =
     (if state_length self \<le> length state \<and> state_length self \<le> length (goal_state self)
      then Inr (sum_list [1. i \<leftarrow> [0..<state_length self], state ! i \<noteq> goal_state self ! i])
      else Inl IndexError)"

definition absolute_difference_heuristic :: "Search \<Rightarrow> state \<Rightarrow> error + int" where
  "absolute_difference_heuristic self state =
     (if state_length self \<le> length state \<and> state_length self \<le> length (goal_state self)
      then Inr (sum_list [\<bar>state ! i - goal_state self ! i\<bar>. i \<leftarrow> [0..<state_length self]])
      else Inl IndexError)"

definition misplaced_elements_cost :: "Search \<Rightarrow> state \<Rightarrow> error + int" where
  "misplaced_elements_cost self state =
     (if state_length self \<le> length (initial_state self) \<and> state_length self \<le> length state
      then Inr (sum_list [1. i \<leftarrow> [0..<state_length self], initial_state self ! i \<noteq> state ! i])
      else Inl IndexError)"

subsection \<open>Successor generator\<close>

text \<open>
  A Python slice \<^verbatim>\<open>xs[a:b]\<close> with \<open>0 \<le> a \<le> b\<close> never fails: it is cut at the end of
  the list.
\<close>

definition slice :: "'a list \<Rightarrow> nat \<Rightarrow> nat \<Rightarrow> 'a list" where
  "slice xs a b = take (b - a) (drop a xs)"

text \<open>
  The list expression of \<^verbatim>\<open>successors\<close> at one index:
  \<^verbatim>\<open>state[:i] + state[i + 1 : i + 2] + state[i : i + 1] + state[i + 2 :]\<close>.
\<close>

definition swap_adjacent :: "state \<Rightarrow> nat \<Rightarrow> state" where
  "swap_adjacent state i =
     take i state @ slice state (i + 1) (i + 2) @ slice state i (i + 1) @ drop (i + 2) state"

text \<open>
  \<^verbatim>\<open>successors\<close>: one entry for every \<^verbatim>\<open>i\<close> in \<^verbatim>\<open>range(self.state_length - 1)\<close>. For
  \<^verbatim>\<open>state_length = 0\<close> the range is \<^verbatim>\<open>range(-1)\<close>, which is empty, as is \<open>[0..<0 - 1]\<close>.
\<close>

definition successors :: "Search \<Rightarrow> state \<Rightarrow> state list" where
  "successors self state = map (swap_adjacent state) [0..<state_length self - 1]"

subsection \<open>Hill climbing\<close>

text \<open>
  \<^verbatim>\<open>min(neighbors, key=self.inversion_heuristic)\<close> returns the first entry with the least
  key and raises ValueError on an empty list.
\<close>

fun min_by :: "('a \<Rightarrow> int) \<Rightarrow> 'a \<Rightarrow> 'a list \<Rightarrow> 'a" where
  "min_by key best [] = best"
| "min_by key best (x # xs) = min_by key (if key x < key best then x else best) xs"

definition py_min :: "('a \<Rightarrow> int) \<Rightarrow> 'a list \<Rightarrow> error + 'a" where
  "py_min key xs = (case xs of [] \<Rightarrow> Inl ValueError | x # rest \<Rightarrow> Inr (min_by key x rest))"

function hill_climbing_loop :: "Search \<Rightarrow> state \<Rightarrow> nat \<Rightarrow> error + (state \<times> nat)" where
  "hill_climbing_loop self current_state nodes_explored =
     (let h = inversion_heuristic current_state in
      if h = 0 then Inr (current_state, nodes_explored)
      else
        let neighbors = successors self current_state;
            nodes_explored' = nodes_explored + length neighbors
        in case py_min inversion_heuristic neighbors of
             Inl e \<Rightarrow> Inl e
           | Inr best_neighbor \<Rightarrow>
               if inversion_heuristic best_neighbor \<ge> h
               then Inr (current_state, nodes_explored')
               else hill_climbing_loop self best_neighbor nodes_explored')"
  by pat_completeness auto

lemma inversion_heuristic_nonneg: "0 \<le> inversion_heuristic state"
  unfolding inversion_heuristic_def by (rule sum_list_nonneg) (auto split: if_splits)

lemma inversion_heuristic_pos: "inversion_heuristic state \<noteq> 0 \<Longrightarrow> 0 < inversion_heuristic state"
  using inversion_heuristic_nonneg [of state] by simp

termination hill_climbing_loop
  by (relation "measure (\<lambda>(self, current_state, nodes_explored).
        nat (inversion_heuristic current_state))")
     (simp_all add: inversion_heuristic_pos)

definition hill_climbing_search :: "Search \<Rightarrow> error + (state \<times> nat)" where
  "hill_climbing_search self = hill_climbing_loop self (initial_state self) 0"

subsection \<open>Frontiers\<close>

text \<open>
  \<^verbatim>\<open>queue.Queue\<close> is first in, first out: \<^verbatim>\<open>put\<close> appends at the back, \<^verbatim>\<open>get\<close> takes the
  front. The stack of depth-first search is a Python list: \<^verbatim>\<open>append\<close> adds at the end and
  \<^verbatim>\<open>pop()\<close> takes the end.

  \<^verbatim>\<open>heapq\<close> keeps a list in heap order. \<^verbatim>\<open>heappush\<close> adds an entry and \<^verbatim>\<open>heappop\<close> removes
  and returns a least entry. The entries are tuples of integers, states and paths, which
  Python compares lexicographically, field by field, a list before every longer list it
  is a prefix of: a total order, in which two entries that compare equal are the same
  value. So the entry returned and the entries left do not depend on the layout of the
  heap, and the model keeps the entries in a list and removes the least one.
\<close>

definition heappush :: "'e list \<Rightarrow> 'e \<Rightarrow> 'e list" where
  "heappush heap item = heap @ [item]"

definition heappop :: "'e::linorder list \<Rightarrow> 'e \<times> 'e list" where
  "heappop heap = (let least = Min (set heap) in (least, remove1 least heap))"

subsection \<open>Termination of the frontier loops\<close>

text \<open>
  Every state a loop can still visit rearranges the values of a state in the frontier.
  The states of this kind that are not visited yet are finitely many, and there is one
  less after each expansion.
\<close>

definition pending :: "state list \<Rightarrow> state list \<Rightarrow> state set" where
  "pending frontier visited = (\<Union>s \<in> set frontier. {t. mset t = mset s}) - set visited"

lemma finite_rearrangements: "finite {t::state. mset t = mset s}"
proof (rule finite_subset)
  show "{t. mset t = mset s} \<subseteq> {t. set t \<subseteq> set s \<and> length t = length s}"
    by (auto dest: mset_eq_setD mset_eq_length)
  show "finite {t. set t \<subseteq> set s \<and> length t = length s}"
    by (rule finite_lists_length_eq) simp
qed

lemma finite_pending: "finite (pending frontier visited)"
  unfolding pending_def by (simp add: finite_rearrangements)

lemma split_at_pair:
  "state = take i state @ slice state i (i + 1) @ slice state (i + 1) (i + 2) @ drop (i + 2) state"
proof -
  have "drop i state = take 1 (drop i state) @ drop (i + 1) state"
    by (metis add.commute append_take_drop_id drop_drop)
  moreover have "drop (i + 1) state = take 1 (drop (i + 1) state) @ drop (i + 2) state"
    by (metis add.commute add_2_eq_Suc' append_take_drop_id drop_drop plus_1_eq_Suc)
  ultimately have "take i state @ drop i state =
      take i state @ take 1 (drop i state) @ take 1 (drop (i + 1) state) @ drop (i + 2) state"
    by simp
  then show ?thesis by (simp add: slice_def)
qed

lemma mset_swap_adjacent: "mset (swap_adjacent state i) = mset state"
proof -
  have "mset state =
      mset (take i state @ slice state i (i + 1) @ slice state (i + 1) (i + 2) @ drop (i + 2) state)"
    by (rule arg_cong [where f = mset]) (rule split_at_pair)
  also have "\<dots> = mset (swap_adjacent state i)"
    by (simp add: swap_adjacent_def)
  finally show ?thesis by simp
qed

lemma mset_successors: "t \<in> set (successors self state) \<Longrightarrow> mset t = mset state"
  by (auto simp: successors_def mset_swap_adjacent)

lemma pending_skip:
  assumes "set frontier' \<subseteq> set frontier"
  shows "card (pending frontier' visited) \<le> card (pending frontier visited)"
proof (rule card_mono)
  show "finite (pending frontier visited)" by (rule finite_pending)
  show "pending frontier' visited \<subseteq> pending frontier visited"
    using assms by (auto simp: pending_def)
qed

lemma pending_expand:
  assumes "state \<in> set frontier" and "state \<notin> set visited"
    and "set frontier' \<subseteq> set frontier \<union> set (successors self state)"
  shows "card (pending frontier' (visited @ [state])) < card (pending frontier visited)"
proof (rule psubset_card_mono)
  show "finite (pending frontier visited)" by (rule finite_pending)
  have "state \<in> pending frontier visited"
    using assms(1,2) by (auto simp: pending_def)
  moreover have "state \<notin> pending frontier' (visited @ [state])"
    by (simp add: pending_def)
  moreover have "pending frontier' (visited @ [state]) \<subseteq> pending frontier visited"
  proof
    fix t assume t: "t \<in> pending frontier' (visited @ [state])"
    then obtain s where s: "s \<in> set frontier'" "mset t = mset s" and nv: "t \<notin> set visited"
      by (auto simp: pending_def)
    from s(1) assms(3) have "s \<in> set frontier \<or> s \<in> set (successors self state)" by auto
    then have "\<exists>u \<in> set frontier. mset t = mset u"
      using s(2) assms(1) by (auto dest: mset_successors)
    with nv show "t \<in> pending frontier visited" by (auto simp: pending_def)
  qed
  ultimately show "pending frontier' (visited @ [state]) \<subset> pending frontier visited"
    by blast
qed

lemma set_remove1_insert: "x \<in> set xs \<Longrightarrow> set xs = insert x (set (remove1 x xs))"
  by (induction xs) auto

lemma heappop_facts:
  assumes "heap \<noteq> []" and "heappop heap = (entry, heap')"
  shows "entry \<in> set heap" and "set heap' \<subseteq> set heap" and "length heap' < length heap"
    and "set heap = insert entry (set heap')"
proof -
  from assms(2) have e: "entry = Min (set heap)" and h: "heap' = remove1 entry heap"
    by (auto simp: heappop_def Let_def)
  from e assms(1) show m: "entry \<in> set heap" by simp
  from h show "set heap' \<subseteq> set heap" by (simp add: set_remove1_subset)
  from h m show "length heap' < length heap"
    using assms(1) by (simp add: length_remove1)
  from m have "set heap = insert entry (set (remove1 entry heap))"
    by (rule set_remove1_insert)
  then show "set heap = insert entry (set heap')"
    unfolding h .
qed

lemma skip_decreases:
  assumes "set frontier' \<subseteq> set frontier" and "length frontier' < length frontier"
  shows "((card (pending (map f frontier') visited), length frontier'),
          (card (pending (map f frontier) visited), length frontier))
         \<in> less_than <*lex*> less_than"
proof -
  have "card (pending (map f frontier') visited) \<le> card (pending (map f frontier) visited)"
    using assms(1) by (intro pending_skip) auto
  with assms(2) show ?thesis by auto
qed

lemma expand_decreases:
  assumes "entry \<in> set frontier" and "f entry \<notin> set visited"
    and "set (map f frontier') \<subseteq> set (map f frontier) \<union> set (successors self (f entry))"
  shows "((card (pending (map f frontier') (visited @ [f entry])), length frontier'),
          (card (pending (map f frontier) visited), length frontier))
         \<in> less_than <*lex*> less_than"
proof -
  have "card (pending (map f frontier') (visited @ [f entry]))
      < card (pending (map f frontier) visited)"
    using assms by (intro pending_expand [where self = self]) auto
  then show ?thesis by simp
qed

subsection \<open>Breadth-first and depth-first search\<close>

text \<open>
  Each strategy returns \<^verbatim>\<open>None\<close> when the frontier is empty and the pair
  \<^verbatim>\<open>(visited_states, path)\<close> at the first unvisited state that equals the goal. The
  loops take the frontier and the visited log as arguments.
\<close>

type_synonym outcome = "(state list \<times> path) option"

function bfs_loop :: "Search \<Rightarrow> (state \<times> path) list \<Rightarrow> state list \<Rightarrow> outcome" where
  "bfs_loop self queue visited_states =
     (case queue of
        [] \<Rightarrow> None
      | (state, path) # queue' \<Rightarrow>
          if state \<in> set visited_states then bfs_loop self queue' visited_states
          else
            let visited_states' = visited_states @ [state] in
            if state = goal_state self then Some (visited_states', path)
            else bfs_loop self
                   (queue' @ map (\<lambda>successor. (successor, path @ [successor]))
                                 (successors self state))
                   visited_states')"
  by pat_completeness auto

termination bfs_loop
proof (relation "inv_image (less_than <*lex*> less_than)
    (\<lambda>(self, queue, visited). (card (pending (map fst queue) visited), length queue))",
    goal_cases)
  case 1
  show ?case by (intro wf_inv_image wf_lex_prod wf_less_than)
next
  case (2 self queue visited_states entry queue' state path)
  have "card (pending (map fst queue') visited_states)
      \<le> card (pending (map fst queue) visited_states)"
    using 2 by (intro pending_skip) auto
  with 2 show ?case by auto
next
  case (3 self queue visited_states entry queue' state path visited_states')
  have "card (pending (map fst (queue' @ map (\<lambda>successor. (successor, path @ [successor]))
            (successors self state))) (visited_states @ [state]))
      < card (pending (map fst queue) visited_states)"
    using 3 by (intro pending_expand [where self = self]) (auto simp: comp_def)
  with 3 show ?case by simp
qed

definition breadth_first_search :: "Search \<Rightarrow> outcome" where
  "breadth_first_search self =
     bfs_loop self [(initial_state self, [initial_state self])] []"

function dfs_loop :: "Search \<Rightarrow> (state \<times> path) list \<Rightarrow> state list \<Rightarrow> outcome" where
  "dfs_loop self stack visited_states =
     (if stack = [] then None
      else
        case last stack of (state, path) \<Rightarrow>
          if state \<in> set visited_states then dfs_loop self (butlast stack) visited_states
          else
            let visited_states' = visited_states @ [state] in
            if state = goal_state self then Some (visited_states', path)
            else dfs_loop self
                   (butlast stack @ map (\<lambda>successor. (successor, path @ [successor]))
                                        (successors self state))
                   visited_states')"
  by pat_completeness auto

termination dfs_loop
proof (relation "inv_image (less_than <*lex*> less_than)
    (\<lambda>(self, stack, visited). (card (pending (map fst stack) visited), length stack))",
    goal_cases)
  case 1
  show ?case by (intro wf_inv_image wf_lex_prod wf_less_than)
next
  case (2 self stack visited_states state path)
  have "card (pending (map fst (butlast stack)) visited_states)
      \<le> card (pending (map fst stack) visited_states)"
    by (intro pending_skip) (auto dest: in_set_butlastD)
  with 2 show ?case by auto
next
  case (3 self stack visited_states state path visited_states')
  have "state \<in> set (map fst stack)"
    using 3 by (metis fst_conv image_eqI last_in_set list.set_map)
  then have "card (pending (map fst (butlast stack @ map (\<lambda>successor. (successor, path @ [successor]))
            (successors self state))) (visited_states @ [state]))
      < card (pending (map fst stack) visited_states)"
    using 3 by (intro pending_expand [where self = self]) (auto simp: comp_def dest: in_set_butlastD)
  with 3 show ?case by simp
qed

definition depth_first_search :: "Search \<Rightarrow> outcome" where
  "depth_first_search self =
     dfs_loop self [(initial_state self, [initial_state self])] []"

subsection \<open>Uniform-cost search\<close>

text \<open>
  The \<^verbatim>\<open>for successor in ...\<close> loop of a priority strategy computes a key for each
  successor; a key that raises ends the search with that error.
\<close>

fun ucs_push :: "Search \<Rightarrow> path \<Rightarrow> (int \<times> state \<times> path) list \<Rightarrow> state list
    \<Rightarrow> error + (int \<times> state \<times> path) list" where
  "ucs_push self path heap [] = Inr heap"
| "ucs_push self path heap (successor # rest) =
     (case misplaced_elements_cost self successor of
        Inl e \<Rightarrow> Inl e
      | Inr new_cost \<Rightarrow>
          ucs_push self path (heappush heap (new_cost, successor, path @ [successor])) rest)"

lemma ucs_push_entries:
  "ucs_push self path heap succs = Inr heap' \<Longrightarrow>
     map snd heap' = map snd heap @ map (\<lambda>t. (t, path @ [t])) succs"
  by (induction succs arbitrary: heap) (auto simp: heappush_def split: sum.splits)

function ucs_loop :: "Search \<Rightarrow> (int \<times> state \<times> path) list \<Rightarrow> state list \<Rightarrow> error + outcome" where
  "ucs_loop self heap visited_states =
     (if heap = [] then Inr None
      else
        case heappop heap of ((cost, state, path), heap') \<Rightarrow>
          if state \<in> set visited_states then ucs_loop self heap' visited_states
          else
            let visited_states' = visited_states @ [state] in
            if state = goal_state self then Inr (Some (visited_states', path))
            else
              (case ucs_push self path heap' (successors self state) of
                 Inl e \<Rightarrow> Inl e
               | Inr heap'' \<Rightarrow> ucs_loop self heap'' visited_states'))"
  by pat_completeness auto

termination ucs_loop
proof (relation "inv_image (less_than <*lex*> less_than)
    (\<lambda>(self, heap, visited). (card (pending (map (fst \<circ> snd) heap) visited), length heap))",
    goal_cases)
  case 1
  show ?case by (intro wf_inv_image wf_lex_prod wf_less_than)
next
  case (2 self heap visited_states popped heap' cost rest state path)
  then have pop: "heappop heap = ((cost, state, path), heap')" by simp
  show ?case
    using heappop_facts(2,3) [OF 2(1) pop] by (simp add: skip_decreases del: in_lex_prod)
next
  case (3 self heap visited_states popped heap' cost rest state path visited_states' heap'')
  then have pop: "heappop heap = ((cost, state, path), heap')" by simp
  note facts = heappop_facts [OF 3(1) pop]
  have "map (fst \<circ> snd) heap'' = map (fst \<circ> snd) heap' @ successors self state"
    using arg_cong [OF ucs_push_entries [OF 3(8)], of "map fst"] by (simp add: comp_def)
  then have sub: "set (map (fst \<circ> snd) heap'') \<subseteq>
      set (map (fst \<circ> snd) heap) \<union> set (successors self ((fst \<circ> snd) (cost, state, path)))"
    using facts(2) by auto
  have unvisited: "(fst \<circ> snd) (cost, state, path) \<notin> set visited_states"
    using 3(5) by simp
  from expand_decreases [where f = "fst \<circ> snd", OF facts(1) unvisited sub] 3(6)
  show ?case by simp
qed


definition uniform_cost_search :: "Search \<Rightarrow> error + outcome" where
  "uniform_cost_search self =
     ucs_loop self [(0, initial_state self, [initial_state self])] []"

subsection \<open>Greedy best-first search\<close>

fun greedy_push :: "Search \<Rightarrow> path \<Rightarrow> (int \<times> state \<times> path) list \<Rightarrow> state list
    \<Rightarrow> error + (int \<times> state \<times> path) list" where
  "greedy_push self path heap [] = Inr heap"
| "greedy_push self path heap (successor # rest) =
     (case absolute_difference_heuristic self successor of
        Inl e \<Rightarrow> Inl e
      | Inr h \<Rightarrow> greedy_push self path (heappush heap (h, successor, path @ [successor])) rest)"

lemma greedy_push_entries:
  "greedy_push self path heap succs = Inr heap' \<Longrightarrow>
     map snd heap' = map snd heap @ map (\<lambda>t. (t, path @ [t])) succs"
  by (induction succs arbitrary: heap) (auto simp: heappush_def split: sum.splits)

function greedy_loop :: "Search \<Rightarrow> (int \<times> state \<times> path) list \<Rightarrow> state list \<Rightarrow> error + outcome" where
  "greedy_loop self heap visited_states =
     (if heap = [] then Inr None
      else
        case heappop heap of ((h, state, path), heap') \<Rightarrow>
          if state \<in> set visited_states then greedy_loop self heap' visited_states
          else
            let visited_states' = visited_states @ [state] in
            if state = goal_state self then Inr (Some (visited_states', path))
            else
              (case greedy_push self path heap' (successors self state) of
                 Inl e \<Rightarrow> Inl e
               | Inr heap'' \<Rightarrow> greedy_loop self heap'' visited_states'))"
  by pat_completeness auto

termination greedy_loop
proof (relation "inv_image (less_than <*lex*> less_than)
    (\<lambda>(self, heap, visited). (card (pending (map (fst \<circ> snd) heap) visited), length heap))",
    goal_cases)
  case 1
  show ?case by (intro wf_inv_image wf_lex_prod wf_less_than)
next
  case (2 self heap visited_states popped heap' cost rest state path)
  then have pop: "heappop heap = ((cost, state, path), heap')" by simp
  show ?case
    using heappop_facts(2,3) [OF 2(1) pop] by (simp add: skip_decreases del: in_lex_prod)
next
  case (3 self heap visited_states popped heap' cost rest state path visited_states' heap'')
  then have pop: "heappop heap = ((cost, state, path), heap')" by simp
  note facts = heappop_facts [OF 3(1) pop]
  have "map (fst \<circ> snd) heap'' = map (fst \<circ> snd) heap' @ successors self state"
    using arg_cong [OF greedy_push_entries [OF 3(8)], of "map fst"] by (simp add: comp_def)
  then have sub: "set (map (fst \<circ> snd) heap'') \<subseteq>
      set (map (fst \<circ> snd) heap) \<union> set (successors self ((fst \<circ> snd) (cost, state, path)))"
    using facts(2) by auto
  have unvisited: "(fst \<circ> snd) (cost, state, path) \<notin> set visited_states"
    using 3(5) by simp
  from expand_decreases [where f = "fst \<circ> snd", OF facts(1) unvisited sub] 3(6)
  show ?case by simp
qed


definition greedy_search :: "Search \<Rightarrow> error + outcome" where
  "greedy_search self =
     (case absolute_difference_heuristic self (initial_state self) of
        Inl e \<Rightarrow> Inl e
      | Inr h \<Rightarrow> greedy_loop self [(h, initial_state self, [initial_state self])] [])"

subsection \<open>A* search\<close>

fun a_star_push :: "Search \<Rightarrow> path \<Rightarrow> (int \<times> int \<times> state \<times> path) list \<Rightarrow> state list
    \<Rightarrow> error + (int \<times> int \<times> state \<times> path) list" where
  "a_star_push self path heap [] = Inr heap"
| "a_star_push self path heap (successor # rest) =
     (case misplaced_elements_cost self successor of
        Inl e \<Rightarrow> Inl e
      | Inr new_cost \<Rightarrow>
          (case absolute_difference_heuristic self successor of
             Inl e \<Rightarrow> Inl e
           | Inr h \<Rightarrow>
               a_star_push self path
                 (heappush heap (h + new_cost, new_cost, successor, path @ [successor])) rest))"

lemma a_star_push_entries:
  "a_star_push self path heap succs = Inr heap' \<Longrightarrow>
     map (snd \<circ> snd) heap' = map (snd \<circ> snd) heap @ map (\<lambda>t. (t, path @ [t])) succs"
  by (induction succs arbitrary: heap) (auto simp: heappush_def split: sum.splits)

function a_star_loop :: "Search \<Rightarrow> (int \<times> int \<times> state \<times> path) list \<Rightarrow> state list
    \<Rightarrow> error + outcome" where
  "a_star_loop self heap visited_states =
     (if heap = [] then Inr None
      else
        case heappop heap of ((f, cost, state, path), heap') \<Rightarrow>
          if state \<in> set visited_states then a_star_loop self heap' visited_states
          else
            let visited_states' = visited_states @ [state] in
            if state = goal_state self then Inr (Some (visited_states', path))
            else
              (case a_star_push self path heap' (successors self state) of
                 Inl e \<Rightarrow> Inl e
               | Inr heap'' \<Rightarrow> a_star_loop self heap'' visited_states'))"
  by pat_completeness auto

termination a_star_loop
proof (relation "inv_image (less_than <*lex*> less_than)
    (\<lambda>(self, heap, visited). (card (pending (map (fst \<circ> snd \<circ> snd) heap) visited), length heap))",
    goal_cases)
  case 1
  show ?case by (intro wf_inv_image wf_lex_prod wf_less_than)
next
  case (2 self heap visited_states popped heap' f rest cost rest' state path)
  then have pop: "heappop heap = ((f, cost, state, path), heap')" by simp
  show ?case
    using heappop_facts(2,3) [OF 2(1) pop] by (simp add: skip_decreases del: in_lex_prod)
next
  case (3 self heap visited_states popped heap' f rest cost rest' state path visited_states' heap'')
  then have pop: "heappop heap = ((f, cost, state, path), heap')" by simp
  note facts = heappop_facts [OF 3(1) pop]
  have "map (fst \<circ> snd \<circ> snd) heap'' = map (fst \<circ> snd \<circ> snd) heap' @ successors self state"
    using arg_cong [OF a_star_push_entries [OF 3(9)], of "map fst"] by (simp add: comp_def)
  then have sub: "set (map (fst \<circ> snd \<circ> snd) heap'') \<subseteq>
      set (map (fst \<circ> snd \<circ> snd) heap)
      \<union> set (successors self ((fst \<circ> snd \<circ> snd) (f, cost, state, path)))"
    using facts(2) by auto
  have unvisited: "(fst \<circ> snd \<circ> snd) (f, cost, state, path) \<notin> set visited_states"
    using 3(6) by simp
  from expand_decreases [where f = "fst \<circ> snd \<circ> snd", OF facts(1) unvisited sub] 3(7)
  show ?case by simp
qed

definition a_star_search :: "Search \<Rightarrow> error + outcome" where
  "a_star_search self =
     (case absolute_difference_heuristic self (initial_state self) of
        Inl e \<Rightarrow> Inl e
      | Inr h \<Rightarrow> a_star_loop self [(h, 0, initial_state self, [initial_state self])] [])"

subsection \<open>The strategies called by \<^verbatim>\<open>main\<close>\<close>

text \<open>The five frontier strategies, in the order in which \<^verbatim>\<open>main\<close> calls them.\<close>

definition frontier_strategies :: "Search \<Rightarrow> (error + outcome) list" where
  "frontier_strategies self =
     [Inr (breadth_first_search self), Inr (depth_first_search self),
      uniform_cost_search self, greedy_search self, a_star_search self]"

subsection \<open>Printing the solution path\<close>

text \<open>
  \<^verbatim>\<open>list.index(x)\<close> returns the first position of \<^verbatim>\<open>x\<close> and raises ValueError when the
  list does not hold it. \<^verbatim>\<open>print_final_path\<close> looks every state of the path up in the
  visited log and prints its index and the state; the model returns these pairs, in the
  order of the lines printed, or the error of the first lookup that fails.
\<close>

fun list_index :: "'a list \<Rightarrow> 'a \<Rightarrow> error + nat" where
  "list_index [] x = Inl ValueError"
| "list_index (y # ys) x =
     (if y = x then Inr 0
      else case list_index ys x of Inl e \<Rightarrow> Inl e | Inr i \<Rightarrow> Inr (i + 1))"

fun print_final_path :: "state list \<Rightarrow> path \<Rightarrow> error + (nat \<times> state) list" where
  "print_final_path visited_states [] = Inr []"
| "print_final_path visited_states (state # path) =
     (case list_index visited_states state of
        Inl e \<Rightarrow> Inl e
      | Inr visited_index \<Rightarrow>
          (case print_final_path visited_states path of
             Inl e \<Rightarrow> Inl e
           | Inr lines \<Rightarrow> Inr ((visited_index, state) # lines)))"

section \<open>Properties of the successor generator and of hill climbing\<close>

lemma slice_single: "i < length xs \<Longrightarrow> slice xs i (i + 1) = [xs ! i]"
  by (simp add: slice_def take_Suc_conv_app_nth hd_drop_conv_nth take_Suc)

lemma swap_adjacent_in_range:
  assumes "i + 1 < length state"
  shows "swap_adjacent state i = state[i := state ! (i + 1), i + 1 := state ! i]"
proof -
  have a: "slice state (Suc i) (Suc (Suc i)) = [state ! Suc i]"
    using slice_single [of "Suc i" state] assms by simp
  have b: "slice state i (Suc i) = [state ! i]"
    using slice_single [of i state] assms by simp
  have d: "drop (Suc i) state = state ! Suc i # drop (Suc (Suc i)) state"
    using assms by (simp add: Cons_nth_drop_Suc)
  have "state[i := state ! (i + 1)] = take i state @ state ! (i + 1) # drop (Suc i) state"
    using assms by (simp add: upd_conv_take_nth_drop)
  then have "state[i := state ! (i + 1), i + 1 := state ! i]
      = take i state @ state ! (i + 1) # state ! i # drop (i + 2) state"
    using assms by (simp add: list_update_append d)
  then show ?thesis by (simp add: swap_adjacent_def a b)
qed

lemma swap_adjacent_out_of_range:
  assumes "length state \<le> i + 1"
  shows "swap_adjacent state i = state"
proof -
  have "slice state (i + 1) (i + 2) = []" using assms by (simp add: slice_def)
  moreover have "drop (i + 2) state = []" using assms by simp
  moreover have "take i state @ slice state i (i + 1) = take (i + 1) state"
    by (metis slice_def take_add add_diff_cancel_left')
  moreover have "take (i + 1) state = state" using assms by simp
  ultimately show ?thesis by (simp add: swap_adjacent_def)
qed

lemma length_swap_adjacent: "length (swap_adjacent state i) = length state"
  using mset_swap_adjacent [of state i] by (rule mset_eq_length)

lemma length_successors: "length (successors self state) = state_length self - 1"
  by (simp add: successors_def)

lemma inversion_heuristic_sorted:
  assumes "sorted state"
  shows "inversion_heuristic state = 0"
proof -
  have "\<not> state ! i > state ! j" if "i < j" "j < length state" for i j
    using sorted_nth_mono [OF assms, of i j] that by simp
  then have "[1::int. i \<leftarrow> [0..<length state], j \<leftarrow> [i + 1..<length state], state ! i > state ! j] = []"
    by auto
  then show ?thesis by (simp only: inversion_heuristic_def sum_list.Nil)
qed


declare hill_climbing_loop.simps [simp del]
declare bfs_loop.simps [simp del]
declare dfs_loop.simps [simp del]
declare ucs_loop.simps [simp del]
declare greedy_loop.simps [simp del]
declare a_star_loop.simps [simp del]

lemma length_successor: "t \<in> set (successors self state) \<Longrightarrow> length t = length state"
  by (auto simp: successors_def length_swap_adjacent)

lemma min_by_least:
  "min_by key best xs \<in> insert best (set xs)
   \<and> (\<forall>x \<in> insert best (set xs). key (min_by key best xs) \<le> key x)"
proof (induction xs arbitrary: best)
  case Nil
  show ?case by simp
next
  case (Cons x xs)
  let ?b = "if key x < key best then x else best"
  from Cons.IH [of ?b] show ?case by (auto split: if_splits)
qed

lemma py_min_least:
  assumes "py_min key xs = Inr best"
  shows "best \<in> set xs" and "\<forall>x \<in> set xs. key best \<le> key x"
  using assms min_by_least [of key "hd xs" "tl xs"]
  by (auto simp: py_min_def split: list.splits)

lemma py_min_nonempty: "xs \<noteq> [] \<Longrightarrow> \<exists>best. py_min key xs = Inr best"
  by (cases xs) (simp_all add: py_min_def)

lemma inversions_need_two:
  assumes "inversion_heuristic state \<noteq> 0"
  shows "2 \<le> length state"
proof (rule ccontr)
  assume "\<not> 2 \<le> length state"
  then have "length state \<le> 1" by simp
  then have "sorted state" by (cases state) (auto simp: Suc_le_eq)
  with assms show False by (simp add: inversion_heuristic_sorted)
qed

lemma successors_nonempty:
  "inversion_heuristic state \<noteq> 0 \<Longrightarrow> length state = state_length self \<Longrightarrow>
     successors self state \<noteq> []"
  using inversions_need_two [of state] by (auto simp: successors_def)

lemma hill_climbing_step:
  assumes "length current = state_length self"
  shows "(inversion_heuristic current = 0 \<longrightarrow>
            hill_climbing_loop self current n = Inr (current, n))
       \<and> (inversion_heuristic current \<noteq> 0 \<longrightarrow>
            (\<exists>best. py_min inversion_heuristic (successors self current) = Inr best
               \<and> best \<in> set (successors self current)
               \<and> (\<forall>t \<in> set (successors self current).
                      inversion_heuristic best \<le> inversion_heuristic t)
               \<and> hill_climbing_loop self current n =
                   (if inversion_heuristic best < inversion_heuristic current
                    then hill_climbing_loop self best (n + length (successors self current))
                    else Inr (current, n + length (successors self current)))))"
proof (intro conjI impI)
  assume "inversion_heuristic current = 0"
  then show "hill_climbing_loop self current n = Inr (current, n)"
    by (subst hill_climbing_loop.simps) simp
next
  assume pos: "inversion_heuristic current \<noteq> 0"
  then obtain best where best: "py_min inversion_heuristic (successors self current) = Inr best"
    using py_min_nonempty successors_nonempty assms by blast
  have "hill_climbing_loop self current n =
      (if inversion_heuristic best < inversion_heuristic current
       then hill_climbing_loop self best (n + length (successors self current))
       else Inr (current, n + length (successors self current)))"
    using pos best by (subst hill_climbing_loop.simps) (simp add: Let_def not_le)
  with best py_min_least [OF best]
  show "\<exists>best. py_min inversion_heuristic (successors self current) = Inr best
               \<and> best \<in> set (successors self current)
               \<and> (\<forall>t \<in> set (successors self current).
                      inversion_heuristic best \<le> inversion_heuristic t)
               \<and> hill_climbing_loop self current n =
                   (if inversion_heuristic best < inversion_heuristic current
                    then hill_climbing_loop self best (n + length (successors self current))
                    else Inr (current, n + length (successors self current)))"
    by blast
qed

lemma hill_climbing_loop_returns:
  "length current = state_length self \<Longrightarrow>
     \<exists>final k. hill_climbing_loop self current n = Inr (final, k)"
proof (induction "nat (inversion_heuristic current)" arbitrary: current n rule: less_induct)
  case less
  note step = hill_climbing_step [OF less.prems, of n]
  show ?case
  proof (cases "inversion_heuristic current = 0")
    case True
    with step show ?thesis by blast
  next
    case False
    with step obtain best where best: "best \<in> set (successors self current)"
      and loop: "hill_climbing_loop self current n =
                   (if inversion_heuristic best < inversion_heuristic current
                    then hill_climbing_loop self best (n + length (successors self current))
                    else Inr (current, n + length (successors self current)))"
      by blast
    show ?thesis
    proof (cases "inversion_heuristic best < inversion_heuristic current")
      case True
      have "length best = state_length self"
        using best less.prems by (simp add: length_successor)
      moreover have "nat (inversion_heuristic best) < nat (inversion_heuristic current)"
        using True inversion_heuristic_nonneg [of best] by simp
      ultimately show ?thesis using less.hyps loop True by simp
    next
      case False
      with loop show ?thesis by simp
    qed
  qed
qed


lemma successors_nth:
  "i < state_length self - 1 \<Longrightarrow> successors self state ! i = swap_adjacent state i"
  by (simp add: successors_def)

lemma swap_adjacent_fixed_iff:
  assumes "i + 1 < length state"
  shows "swap_adjacent state i = state \<longleftrightarrow> state ! i = state ! (i + 1)"
proof
  assume "swap_adjacent state i = state"
  then have "state[i := state ! (i + 1), i + 1 := state ! i] ! i = state ! i"
    using swap_adjacent_in_range [OF assms] by simp
  then show "state ! i = state ! (i + 1)"
    using assms by simp
next
  assume "state ! i = state ! (i + 1)"
  then have "state[i := state ! (i + 1), i + 1 := state ! i] = state"
    by (metis list_update_id)
  then show "swap_adjacent state i = state"
    using swap_adjacent_in_range [OF assms] by simp
qed

text \<open>
  C3. For a state whose length is the stored \<open>state_length\<close> N, \<open>successors\<close> returns
  N - 1 states (none when N is 0 or 1), and the entry at index i is the state with the
  values at positions i and i + 1 exchanged, for i from 0 to N - 2 in this order. The
  generator only slices and concatenates, which builds new lists: the input is a value
  of the model and cannot change.
\<close>

theorem successors_adjacent_swaps:
  assumes "length state = state_length self"
  shows "(1 \<le> state_length self \<longrightarrow>
            int (length (successors self state)) = int (state_length self) - 1)
       \<and> (state_length self = 0 \<longrightarrow> successors self state = [])
       \<and> (\<forall>i. i + 1 < state_length self \<longrightarrow>
            successors self state ! i = state[i := state ! (i + 1), i + 1 := state ! i])"
proof (intro conjI allI impI)
  assume "1 \<le> state_length self"
  then show "int (length (successors self state)) = int (state_length self) - 1"
    by (simp add: length_successors)
next
  assume "state_length self = 0"
  then show "successors self state = []" by (simp add: successors_def)
next
  fix i assume i: "i + 1 < state_length self"
  then have "successors self state ! i = swap_adjacent state i"
    by (simp add: successors_nth)
  also have "\<dots> = state[i := state ! (i + 1), i + 1 := state ! i]"
    using i assms by (simp add: swap_adjacent_in_range)
  finally show "successors self state ! i = state[i := state ! (i + 1), i + 1 := state ! i]" .
qed

theorem successors_adjacent_swaps_witness:
  "length [3, 1, 2] = state_length (new_Search [3, 1, 2])
   \<and> int (length (successors (new_Search [3, 1, 2]) [3, 1, 2])) = 2
   \<and> successors (new_Search [3, 1, 2]) [3, 1, 2] ! 0 = [1, 3, 2]
   \<and> successors (new_Search [3, 1, 2]) [3, 1, 2] ! 1 = [3, 2, 1]"
proof -
  have len: "length [3, 1, 2] = state_length (new_Search [3, 1, 2])"
    by (simp add: new_Search_def)
  have n: "state_length (new_Search [3, 1, 2]) = 3"
    by (simp add: new_Search_def)
  from successors_adjacent_swaps [OF len] have
    count: "int (length (successors (new_Search [3, 1, 2]) [3, 1, 2])) = 2"
    and nth: "\<And>i. i + 1 < 3 \<Longrightarrow> successors (new_Search [3, 1, 2]) [3, 1, 2] ! i
        = [3, 1, 2][i := [3, 1, 2] ! (i + 1), i + 1 := [3, 1, 2] ! i]"
    by (simp_all add: n)
  from nth [of 0] nth [of 1] count len show ?thesis by simp
qed

text \<open>
  C7, as stated, fails: exchanging two equal neighbours gives the state back. The state
  \<open>[1, 1, 2]\<close> is its own first successor.
\<close>

theorem successor_equals_state_counterexample:
  "[1, 1, 2] \<in> set (successors (new_Search [1, 1, 2]) [1, 1, 2])"
  by (simp add: new_Search_def successors_def swap_adjacent_def slice_def upt_rec)

text \<open>
  C7, amended. A state of the stored length is among its own successors exactly when two
  neighbouring values of it are equal; the successor at index i equals the state exactly
  when the values at positions i and i + 1 are equal.
\<close>

theorem successor_equals_state_iff:
  assumes "length state = state_length self"
  shows "(state \<in> set (successors self state)
            \<longleftrightarrow> (\<exists>i. i + 1 < length state \<and> state ! i = state ! (i + 1)))
       \<and> (\<forall>i. i + 1 < length state \<longrightarrow>
            (successors self state ! i = state \<longleftrightarrow> state ! i = state ! (i + 1)))"
proof -
  have nth: "successors self state ! i = state \<longleftrightarrow> state ! i = state ! (i + 1)"
    if "i + 1 < length state" for i
    using that assms by (simp add: successors_nth swap_adjacent_fixed_iff)
  have "state \<in> set (successors self state)
      \<longleftrightarrow> (\<exists>i. i + 1 < length state \<and> successors self state ! i = state)"
    using assms by (auto simp: in_set_conv_nth length_successors less_diff_conv)
  with nth show ?thesis by auto
qed

theorem successor_equals_state_iff_witness:
  "length [3, 1, 2] = state_length (new_Search [3, 1, 2])
   \<and> [3, 1, 2] \<notin> set (successors (new_Search [3, 1, 2]) [3, 1, 2])
   \<and> length [1, 1, 2] = state_length (new_Search [1, 1, 2])
   \<and> successors (new_Search [1, 1, 2]) [1, 1, 2] ! 0 = [1, 1, 2]"
proof -
  have len: "length [3, 1, 2] = state_length (new_Search [3, 1, 2])"
    and len': "length [1, 1, 2] = state_length (new_Search [1, 1, 2])"
    by (simp_all add: new_Search_def)
  have "\<not> (\<exists>i. i + 1 < length [3, 1, 2] \<and> [3, 1, 2::int] ! i = [3, 1, 2] ! (i + 1))"
    by (auto simp: less_Suc_eq nth_Cons')
  with successor_equals_state_iff [OF len]
  have a: "[3, 1, 2] \<notin> set (successors (new_Search [3, 1, 2]) [3, 1, 2])" by blast
  from successor_equals_state_iff [OF len']
  have "successors (new_Search [1, 1, 2]) [1, 1, 2] ! 0 = [1, 1, 2]
      \<longleftrightarrow> [1, 1, 2::int] ! 0 = [1, 1, 2] ! (0 + 1)"
    by simp
  then have b: "successors (new_Search [1, 1, 2]) [1, 1, 2] ! 0 = [1, 1, 2]" by simp
  from len len' a b show ?thesis by blast
qed


lemma heappop_single: "heappop [entry] = (entry, [])"
  by (simp add: heappop_def)

lemma short_sorted: "length (initial :: state) \<le> 1 \<Longrightarrow> sort initial = initial"
  by (cases initial) (auto simp: Suc_le_eq)

lemma absolute_difference_initial:
  "\<exists>h. absolute_difference_heuristic (new_Search initial) initial = Inr h"
  by (simp add: absolute_difference_heuristic_def new_Search_def)

text \<open>
  C8. An initial sequence of length 0 or 1 is its own goal and has no successors. Each of
  the five frontier strategies returns at its first iteration, with the initial state as
  the only visited state and as the only entry of the path, so the path has length 1;
  hill climbing returns the initial state with no state examined.
\<close>

theorem trivial_sequences:
  assumes "length initial \<le> 1"
  shows "goal_state (new_Search initial) = initial
       \<and> successors (new_Search initial) initial = []
       \<and> breadth_first_search (new_Search initial) = Some ([initial], [initial])
       \<and> depth_first_search (new_Search initial) = Some ([initial], [initial])
       \<and> uniform_cost_search (new_Search initial) = Inr (Some ([initial], [initial]))
       \<and> greedy_search (new_Search initial) = Inr (Some ([initial], [initial]))
       \<and> a_star_search (new_Search initial) = Inr (Some ([initial], [initial]))
       \<and> hill_climbing_search (new_Search initial) = Inr (initial, 0)
       \<and> length [initial] = 1"
proof -
  have goal: "goal_state (new_Search initial) = initial"
    using assms by (simp add: new_Search_def short_sorted)
  have succs: "successors (new_Search initial) initial = []"
    using assms by (simp add: new_Search_def successors_def)
  have init: "initial_state (new_Search initial) = initial"
    by (simp add: new_Search_def)
  have bfs: "breadth_first_search (new_Search initial) = Some ([initial], [initial])"
    unfolding breadth_first_search_def init
    by (subst bfs_loop.simps) (simp add: goal Let_def)
  have dfs: "depth_first_search (new_Search initial) = Some ([initial], [initial])"
    unfolding depth_first_search_def init
    by (subst dfs_loop.simps) (simp add: goal Let_def)
  have ucs: "uniform_cost_search (new_Search initial) = Inr (Some ([initial], [initial]))"
    unfolding uniform_cost_search_def init
    by (subst ucs_loop.simps) (simp add: goal heappop_single Let_def)
  obtain h where h: "absolute_difference_heuristic (new_Search initial) initial = Inr h"
    using absolute_difference_initial by blast
  have greedy: "greedy_search (new_Search initial) = Inr (Some ([initial], [initial]))"
    unfolding greedy_search_def init h
    by (subst greedy_loop.simps) (simp add: goal heappop_single Let_def)
  have a_star: "a_star_search (new_Search initial) = Inr (Some ([initial], [initial]))"
    unfolding a_star_search_def init h
    by (subst a_star_loop.simps) (simp add: goal heappop_single Let_def)
  have "sorted initial"
    using assms by (cases initial) (auto simp: Suc_le_eq)
  then have hill: "hill_climbing_search (new_Search initial) = Inr (initial, 0)"
    unfolding hill_climbing_search_def init
    by (subst hill_climbing_loop.simps) (simp add: inversion_heuristic_sorted)
  from goal succs bfs dfs ucs greedy a_star hill show ?thesis by simp
qed

theorem trivial_sequences_witness:
  "length [5 :: int] \<le> 1
   \<and> goal_state (new_Search [5]) = [5]
   \<and> successors (new_Search [5]) [5] = []
   \<and> breadth_first_search (new_Search [5]) = Some ([[5]], [[5]])
   \<and> depth_first_search (new_Search [5]) = Some ([[5]], [[5]])
   \<and> uniform_cost_search (new_Search [5]) = Inr (Some ([[5]], [[5]]))
   \<and> greedy_search (new_Search [5]) = Inr (Some ([[5]], [[5]]))
   \<and> a_star_search (new_Search [5]) = Inr (Some ([[5]], [[5]]))
   \<and> hill_climbing_search (new_Search [5]) = Inr ([5], 0)
   \<and> length ([] :: state) \<le> 1
   \<and> breadth_first_search (new_Search []) = Some ([[]], [[]])
   \<and> a_star_search (new_Search []) = Inr (Some ([[]], [[]]))"
proof -
  have one: "length [5 :: int] \<le> 1" and none: "length ([] :: state) \<le> 1" by simp_all
  from trivial_sequences [OF one] trivial_sequences [OF none] one none
  show ?thesis by simp
qed

text \<open>
  C9. On a sorted initial sequence the inversion count is zero and hill climbing returns
  at once, with the sequence unchanged and no state examined. On \<open>[2, 1]\<close>, which has
  one inversion, it examines the one neighbour \<open>[1, 2]\<close>, moves there and returns it.
\<close>

theorem hill_climbing_sorted_and_pair:
  "(sorted initial \<longrightarrow>
      inversion_heuristic initial = 0
      \<and> hill_climbing_search (new_Search initial) = Inr (initial, 0))
   \<and> inversion_heuristic [2, 1] = 1
   \<and> hill_climbing_loop (new_Search [2, 1]) [2, 1] 0
       = hill_climbing_loop (new_Search [2, 1]) [1, 2] 1
   \<and> hill_climbing_search (new_Search [2, 1]) = Inr ([1, 2], 1)"
proof (intro conjI impI)
  assume "sorted initial"
  then show "inversion_heuristic initial = 0" by (rule inversion_heuristic_sorted)
  then show "hill_climbing_search (new_Search initial) = Inr (initial, 0)"
    unfolding hill_climbing_search_def
    by (subst hill_climbing_loop.simps) (simp add: new_Search_def)
next
  show inv: "inversion_heuristic [2, 1] = 1"
    by (simp add: inversion_heuristic_def upt_rec)
  have inv': "inversion_heuristic [1, 2] = 0"
    by (simp add: inversion_heuristic_sorted)
  have succs: "successors (new_Search [2, 1]) [2, 1] = [[1, 2]]"
    by (simp add: new_Search_def successors_def swap_adjacent_def slice_def)
  show step: "hill_climbing_loop (new_Search [2, 1]) [2, 1] 0
      = hill_climbing_loop (new_Search [2, 1]) [1, 2] 1"
    by (subst hill_climbing_loop.simps) (simp add: inv inv' succs py_min_def)
  have "hill_climbing_loop (new_Search [2, 1]) [1, 2] 1 = Inr ([1, 2], 1)"
    by (subst hill_climbing_loop.simps) (simp add: inv')
  with step show "hill_climbing_search (new_Search [2, 1]) = Inr ([1, 2], 1)"
    by (simp add: hill_climbing_search_def new_Search_def)
qed

theorem hill_climbing_sorted_and_pair_witness:
  "sorted [1, 2, 3 :: int]
   \<and> inversion_heuristic [1, 2, 3] = 0
   \<and> hill_climbing_search (new_Search [1, 2, 3]) = Inr ([1, 2, 3], 0)"
proof -
  have s: "sorted [1, 2, 3 :: int]" by simp
  with hill_climbing_sorted_and_pair [of "[1, 2, 3]"] show ?thesis by blast
qed

text \<open>
  C6. Hill climbing returns for every initial sequence, and never with an error. An
  iteration at a state with no inversion returns the state and the count. Otherwise it
  takes a neighbour with the least inversion count of all neighbours; when that count is
  strictly below the current one the loop goes on from this neighbour, and when it is
  not (no neighbour improves) the loop returns the current state. The count returned
  is the number of neighbours examined so far.
\<close>

theorem hill_climbing_terminates:
  "(\<exists>final k. hill_climbing_search (new_Search initial) = Inr (final, k))
   \<and> (length current = length initial \<longrightarrow>
        (inversion_heuristic current = 0 \<longrightarrow>
            hill_climbing_loop (new_Search initial) current n = Inr (current, n))
        \<and> (inversion_heuristic current \<noteq> 0 \<longrightarrow>
            (\<exists>best. py_min inversion_heuristic (successors (new_Search initial) current) = Inr best
               \<and> best \<in> set (successors (new_Search initial) current)
               \<and> (\<forall>t \<in> set (successors (new_Search initial) current).
                      inversion_heuristic best \<le> inversion_heuristic t)
               \<and> hill_climbing_loop (new_Search initial) current n =
                   (if inversion_heuristic best < inversion_heuristic current
                    then hill_climbing_loop (new_Search initial) best
                           (n + length (successors (new_Search initial) current))
                    else Inr (current, n + length (successors (new_Search initial) current))))))"
proof (intro conjI impI)
  show "\<exists>final k. hill_climbing_search (new_Search initial) = Inr (final, k)"
    unfolding hill_climbing_search_def
    by (rule hill_climbing_loop_returns) (simp add: new_Search_def)
next
  assume "length current = length initial"
  then have len: "length current = state_length (new_Search initial)"
    by (simp add: new_Search_def)
  note step = hill_climbing_step [OF len, of n]
  {
    assume "inversion_heuristic current = 0"
    with step show "hill_climbing_loop (new_Search initial) current n = Inr (current, n)"
      by blast
  }
  {
    assume "inversion_heuristic current \<noteq> 0"
    with step show "\<exists>best. py_min inversion_heuristic (successors (new_Search initial) current) = Inr best
               \<and> best \<in> set (successors (new_Search initial) current)
               \<and> (\<forall>t \<in> set (successors (new_Search initial) current).
                      inversion_heuristic best \<le> inversion_heuristic t)
               \<and> hill_climbing_loop (new_Search initial) current n =
                   (if inversion_heuristic best < inversion_heuristic current
                    then hill_climbing_loop (new_Search initial) best
                           (n + length (successors (new_Search initial) current))
                    else Inr (current, n + length (successors (new_Search initial) current)))"
      by blast
  }
qed

theorem hill_climbing_terminates_witness:
  "length [3, 1, 2 :: int] = length [3, 1, 2 :: int]
   \<and> inversion_heuristic [3, 1, 2] = 2
   \<and> py_min inversion_heuristic (successors (new_Search [3, 1, 2]) [3, 1, 2]) = Inr [1, 3, 2]
   \<and> inversion_heuristic [1, 3, 2] = 1
   \<and> hill_climbing_loop (new_Search [3, 1, 2]) [3, 1, 2] 0
       = hill_climbing_loop (new_Search [3, 1, 2]) [1, 3, 2] 2
   \<and> hill_climbing_search (new_Search [3, 1, 2]) = Inr ([1, 2, 3], 4)"
proof -
  have inv: "inversion_heuristic [3, 1, 2] = 2" and inv': "inversion_heuristic [1, 3, 2] = 1"
    by (simp_all add: inversion_heuristic_def upt_rec)
  have succs: "successors (new_Search [3, 1, 2]) [3, 1, 2] = [[1, 3, 2], [3, 2, 1]]"
    by (simp add: new_Search_def successors_def swap_adjacent_def slice_def upt_rec)
  have inv'': "inversion_heuristic [3, 2, 1] = 3"
    by (simp add: inversion_heuristic_def upt_rec)
  have best: "py_min inversion_heuristic (successors (new_Search [3, 1, 2]) [3, 1, 2]) = Inr [1, 3, 2]"
    by (simp add: succs py_min_def inv' inv'')
  have result: "hill_climbing_search (new_Search [3, 1, 2]) = Inr ([1, 2, 3], 4)"
    by code_simp
  from hill_climbing_terminates [of "[3, 1, 2]" "[3, 1, 2]" 0] inv
  obtain b where "py_min inversion_heuristic (successors (new_Search [3, 1, 2]) [3, 1, 2]) = Inr b"
    and "hill_climbing_loop (new_Search [3, 1, 2]) [3, 1, 2] 0 =
          (if inversion_heuristic b < inversion_heuristic [3, 1, 2]
           then hill_climbing_loop (new_Search [3, 1, 2]) b
                  (0 + length (successors (new_Search [3, 1, 2]) [3, 1, 2]))
           else Inr ([3, 1, 2], 0 + length (successors (new_Search [3, 1, 2]) [3, 1, 2])))"
    by auto
  with best inv inv' succs
  have "hill_climbing_loop (new_Search [3, 1, 2]) [3, 1, 2] 0
       = hill_climbing_loop (new_Search [3, 1, 2]) [1, 3, 2] 2"
    by (simp add: numeral_2_eq_2)
  with inv inv' best result show ?thesis by simp
qed

subsection \<open>Every sequence can be sorted by exchanging neighbours\<close>

definition adjacent_step :: "state \<Rightarrow> state \<Rightarrow> bool" where
  "adjacent_step a b \<longleftrightarrow> (\<exists>i. i + 1 < length a \<and> b = swap_adjacent a i)"

lemma swap_adjacent_Cons: "swap_adjacent (x # state) (Suc i) = x # swap_adjacent state i"
  by (simp add: swap_adjacent_def slice_def)

lemma swap_adjacent_front: "swap_adjacent (x # y # state) 0 = y # x # state"
  by (simp add: swap_adjacent_def slice_def)

lemma adjacent_step_Cons: "adjacent_step a b \<Longrightarrow> adjacent_step (x # a) (x # b)"
  unfolding adjacent_step_def
  by (metis Suc_eq_plus1 Suc_less_eq length_Cons swap_adjacent_Cons)

lemma adjacent_reach_Cons:
  "adjacent_step\<^sup>*\<^sup>* a b \<Longrightarrow> adjacent_step\<^sup>*\<^sup>* (x # a) (x # b)"
proof (induction rule: rtranclp_induct)
  case base
  show ?case by simp
next
  case (step b c)
  from step.hyps(2) have "adjacent_step (x # b) (x # c)" by (rule adjacent_step_Cons)
  with step.IH show ?case by (rule rtranclp.rtrancl_into_rtrancl)
qed

lemma adjacent_reach_insort: "adjacent_step\<^sup>*\<^sup>* (x # ys) (insort x ys)"
proof (induction ys)
  case Nil
  show ?case by simp
next
  case (Cons y ys)
  show ?case
  proof (cases "x \<le> y")
    case True
    then show ?thesis by simp
  next
    case False
    have "adjacent_step (x # y # ys) (y # x # ys)"
      unfolding adjacent_step_def using swap_adjacent_front [of x y ys]
      by (intro exI [of _ 0]) simp
    moreover have "adjacent_step\<^sup>*\<^sup>* (y # x # ys) (y # insort x ys)"
      using Cons.IH by (rule adjacent_reach_Cons)
    ultimately have "adjacent_step\<^sup>*\<^sup>* (x # y # ys) (y # insort x ys)"
      by (rule converse_rtranclp_into_rtranclp)
    with False show ?thesis by simp
  qed
qed

lemma adjacent_reach_sort: "adjacent_step\<^sup>*\<^sup>* xs (sort xs)"
proof (induction xs)
  case Nil
  show ?case by simp
next
  case (Cons x xs)
  have "adjacent_step\<^sup>*\<^sup>* (x # xs) (x # sort xs)"
    using Cons.IH by (rule adjacent_reach_Cons)
  moreover have "adjacent_step\<^sup>*\<^sup>* (x # sort xs) (insort x (sort xs))"
    by (rule adjacent_reach_insort)
  ultimately show ?case by simp
qed

lemma adjacent_step_successor:
  assumes "adjacent_step a b" and "length a = state_length self"
  shows "b \<in> set (successors self a)"
proof -
  from assms(1) obtain i where i: "i + 1 < length a" and b: "b = swap_adjacent a i"
    unfolding adjacent_step_def by blast
  from i assms(2) have "i < state_length self - 1" by simp
  then have "successors self a ! i = b" and "i < length (successors self a)"
    by (simp_all add: successors_nth b length_successors)
  then show ?thesis by (metis nth_mem)
qed

lemma closed_contains_reachable:
  assumes "adjacent_step\<^sup>*\<^sup>* a b" and "a \<in> S"
    and "\<And>v. v \<in> S \<Longrightarrow> length v = state_length self"
    and "\<And>v t. v \<in> S \<Longrightarrow> t \<in> set (successors self v) \<Longrightarrow> t \<in> S"
  shows "b \<in> S"
  using assms(1)
proof (induction rule: rtranclp_induct)
  case base
  show ?case by (rule assms(2))
next
  case (step b c)
  from step.IH have "length b = state_length self" by (rule assms(3))
  with step.hyps(2) have "c \<in> set (successors self b)" by (rule adjacent_step_successor)
  with step.IH show ?case by (rule assms(4))
qed

subsection \<open>The five frontier loops as one nondeterministic search\<close>

text \<open>
  The loops differ only in which frontier entry they take next. \<open>search_run\<close> describes
  one loop that may take any entry: it relates a set of entries (state and path) and a
  visited log to a result. Every fact proved of \<open>search_run\<close> holds of each strategy.
\<close>

inductive search_run :: "Search \<Rightarrow> (state \<times> path) set \<Rightarrow> state list \<Rightarrow> outcome \<Rightarrow> bool"
  for self :: Search where
  exhausted: "search_run self {} visited None"
| skip: "state \<in> set visited \<Longrightarrow> search_run self rest visited result \<Longrightarrow>
         search_run self (insert (state, path) rest) visited result"
| found: "state \<notin> set visited \<Longrightarrow> state = goal_state self \<Longrightarrow>
         search_run self (insert (state, path) rest) visited (Some (visited @ [state], path))"
| expand: "state \<notin> set visited \<Longrightarrow> state \<noteq> goal_state self \<Longrightarrow>
         search_run self (rest \<union> (\<lambda>t. (t, path @ [t])) ` set (successors self state))
           (visited @ [state]) result \<Longrightarrow>
         search_run self (insert (state, path) rest) visited result"

definition swap_chain :: "Search \<Rightarrow> path \<Rightarrow> bool" where
  "swap_chain self path = successively (\<lambda>a b. b \<in> set (successors self a)) path"

definition entry_invariant :: "Search \<Rightarrow> state list \<Rightarrow> state \<times> path \<Rightarrow> bool" where
  "entry_invariant self visited entry \<longleftrightarrow>
     (case entry of (state, path) \<Rightarrow>
        length state = state_length self \<and> path \<noteq> [] \<and> hd path = initial_state self
        \<and> last path = state \<and> swap_chain self path
        \<and> distinct (butlast path) \<and> set (butlast path) \<subseteq> set visited)"

definition frontier_invariant :: "Search \<Rightarrow> (state \<times> path) set \<Rightarrow> state list \<Rightarrow> bool" where
  "frontier_invariant self frontier visited \<longleftrightarrow>
     distinct visited \<and> goal_state self \<notin> set visited
     \<and> (\<forall>v \<in> set visited. length v = state_length self)
     \<and> (\<forall>entry \<in> frontier. entry_invariant self visited entry)
     \<and> initial_state self \<in> set visited \<union> fst ` frontier
     \<and> (\<forall>v \<in> set visited. \<forall>t \<in> set (successors self v). t \<in> set visited \<union> fst ` frontier)"

lemma frontier_invariant_initial:
  assumes "length (initial_state self) = state_length self"
  shows "frontier_invariant self {(initial_state self, [initial_state self])} []"
  using assms by (simp add: frontier_invariant_def entry_invariant_def swap_chain_def)

lemma entry_invariant_mono:
  "entry_invariant self visited entry \<Longrightarrow> set visited \<subseteq> set visited' \<Longrightarrow>
     entry_invariant self visited' entry"
  by (auto simp: entry_invariant_def)

lemma frontier_invariantD:
  assumes "frontier_invariant self frontier visited"
  shows "distinct visited" and "goal_state self \<notin> set visited"
    and "\<And>v. v \<in> set visited \<Longrightarrow> length v = state_length self"
    and "\<And>entry. entry \<in> frontier \<Longrightarrow> entry_invariant self visited entry"
    and "initial_state self \<in> set visited \<union> fst ` frontier"
    and "\<And>v t. v \<in> set visited \<Longrightarrow> t \<in> set (successors self v) \<Longrightarrow>
           t \<in> set visited \<union> fst ` frontier"
  using assms unfolding frontier_invariant_def by blast+

lemma frontier_invariant_skip:
  assumes inv: "frontier_invariant self (insert (state, path) rest) visited"
    and old: "state \<in> set visited"
  shows "frontier_invariant self rest visited"
  unfolding frontier_invariant_def
proof (intro conjI ballI)
  note D = frontier_invariantD [OF inv]
  show "distinct visited" by (rule D(1))
  show "goal_state self \<notin> set visited" by (rule D(2))
  show "length v = state_length self" if "v \<in> set visited" for v
    using that by (rule D(3))
  show "entry_invariant self visited entry" if "entry \<in> rest" for entry
    using that by (intro D(4)) simp
  have covered: "t \<in> set visited \<union> fst ` rest"
    if "t \<in> set visited \<union> fst ` insert (state, path) rest" for t
    using that old by auto
  show "initial_state self \<in> set visited \<union> fst ` rest"
    using D(5) by (rule covered)
  show "t \<in> set visited \<union> fst ` rest"
    if "v \<in> set visited" "t \<in> set (successors self v)" for v t
    using D(6) [OF that] by (rule covered)
qed

lemma entry_invariant_successor:
  assumes "entry_invariant self visited (state, path)" and "state \<notin> set visited"
    and "t \<in> set (successors self state)"
  shows "entry_invariant self (visited @ [state]) (t, path @ [t])"
proof -
  from assms(1) have p: "path \<noteq> []" "hd path = initial_state self" "last path = state"
      "swap_chain self path" "distinct (butlast path)" "set (butlast path) \<subseteq> set visited"
      "length state = state_length self"
    by (simp_all add: entry_invariant_def)
  from p(1,3) have path: "path = butlast path @ [state]"
    by (metis append_butlast_last_id)
  have "distinct (butlast path @ [state])"
    using p(5,6) assms(2) by auto
  with path have d: "distinct path" by simp
  have s: "set path \<subseteq> set (visited @ [state])"
    using p(6) by (subst path) auto
  have c: "swap_chain self (path @ [t])"
    using p(1,3,4) assms(3) by (simp add: swap_chain_def successively_append_iff)
  have "length t = state_length self"
    using assms(3) p(7) by (simp add: length_successor)
  with p(1,2) d s c show ?thesis by (simp add: entry_invariant_def)
qed

lemma frontier_invariant_expand:
  assumes inv: "frontier_invariant self (insert (state, path) rest) visited"
    and new: "state \<notin> set visited" and ng: "state \<noteq> goal_state self"
  shows "frontier_invariant self
           (rest \<union> (\<lambda>t. (t, path @ [t])) ` set (successors self state)) (visited @ [state])"
  unfolding frontier_invariant_def
proof (intro conjI ballI)
  let ?new = "(\<lambda>t. (t, path @ [t])) ` set (successors self state)"
  note D = frontier_invariantD [OF inv]
  have e: "entry_invariant self visited (state, path)"
    by (rule D(4)) simp
  show "distinct (visited @ [state])"
    using D(1) new by simp
  show "goal_state self \<notin> set (visited @ [state])"
    using D(2) ng by auto
  show "length v = state_length self" if "v \<in> set (visited @ [state])" for v
  proof (cases "v = state")
    case True
    with e show ?thesis by (simp add: entry_invariant_def)
  next
    case False
    with that show ?thesis by (intro D(3)) simp
  qed
  show "entry_invariant self (visited @ [state]) entry" if "entry \<in> rest \<union> ?new" for entry
  proof (cases "entry \<in> rest")
    case True
    then have "entry_invariant self visited entry" by (intro D(4)) simp
    then show ?thesis by (rule entry_invariant_mono) auto
  next
    case False
    with that obtain t where "t \<in> set (successors self state)" "entry = (t, path @ [t])"
      by auto
    with e new show ?thesis by (simp add: entry_invariant_successor)
  qed
  have covered: "t \<in> set (visited @ [state]) \<union> fst ` (rest \<union> ?new)"
    if "t \<in> set visited \<union> fst ` insert (state, path) rest" for t
    using that by auto
  show "initial_state self \<in> set (visited @ [state]) \<union> fst ` (rest \<union> ?new)"
    using D(5) by (rule covered)
  show "t \<in> set (visited @ [state]) \<union> fst ` (rest \<union> ?new)"
    if "v \<in> set (visited @ [state])" "t \<in> set (successors self v)" for v t
  proof (cases "v = state")
    case True
    with that(2) have "(t, path @ [t]) \<in> ?new" by simp
    then have "t \<in> fst ` ?new" by (metis fst_conv image_eqI)
    then show ?thesis by auto
  next
    case False
    with that(1) have "v \<in> set visited" by simp
    from D(6) [OF this that(2)] show ?thesis by (rule covered)
  qed
qed

subsection \<open>Each strategy is a run of the nondeterministic search\<close>

lemma bfs_loop_Nil: "bfs_loop self [] visited = None"
  by (subst bfs_loop.simps) simp

lemma bfs_loop_old:
  "state \<in> set visited \<Longrightarrow>
     bfs_loop self ((state, path) # rest) visited = bfs_loop self rest visited"
  by (subst bfs_loop.simps) simp

lemma bfs_loop_goal:
  "state \<notin> set visited \<Longrightarrow> state = goal_state self \<Longrightarrow>
     bfs_loop self ((state, path) # rest) visited = Some (visited @ [state], path)"
  by (subst bfs_loop.simps) (simp add: Let_def)

lemma bfs_loop_new:
  "state \<notin> set visited \<Longrightarrow> state \<noteq> goal_state self \<Longrightarrow>
     bfs_loop self ((state, path) # rest) visited =
       bfs_loop self (rest @ map (\<lambda>t. (t, path @ [t])) (successors self state))
         (visited @ [state])"
  by (subst bfs_loop.simps) (simp add: Let_def)

lemma bfs_loop_run: "search_run self (set queue) visited (bfs_loop self queue visited)"
proof (induction self queue visited rule: bfs_loop.induct)
  case (1 self queue visited)
  show ?case
  proof (cases queue)
    case Nil
    then show ?thesis by (simp add: bfs_loop_Nil search_run.exhausted)
  next
    case (Cons entry rest)
    obtain state path where entry: "(state, path) = entry" by (cases entry) simp
    then have queue: "queue = (state, path) # rest" using Cons by simp
    consider (old) "state \<in> set visited"
      | (goal) "state \<notin> set visited" "state = goal_state self"
      | (new) "state \<notin> set visited" "state \<noteq> goal_state self"
      by blast
    then show ?thesis
    proof cases
      case old
      from "1.IH"(1) [OF Cons entry old] old
      have "search_run self (insert (state, path) (set rest)) visited (bfs_loop self rest visited)"
        by (intro search_run.skip)
      then show ?thesis by (simp add: queue bfs_loop_old old)
    next
      case goal
      then have "search_run self (insert (state, path) (set rest)) visited
          (Some (visited @ [state], path))"
        by (intro search_run.found)
      moreover have "bfs_loop self queue visited = Some (visited @ [state], path)"
        unfolding queue using goal by (rule bfs_loop_goal)
      ultimately show ?thesis by (simp add: queue)
    next
      case new
      from "1.IH"(2) [OF Cons entry new(1) refl new(2)]
      have "search_run self (set rest \<union> (\<lambda>t. (t, path @ [t])) ` set (successors self state))
          (visited @ [state])
          (bfs_loop self (rest @ map (\<lambda>t. (t, path @ [t])) (successors self state))
             (visited @ [state]))"
        by simp
      with new have "search_run self (insert (state, path) (set rest)) visited
          (bfs_loop self (rest @ map (\<lambda>t. (t, path @ [t])) (successors self state))
             (visited @ [state]))"
        by (intro search_run.expand)
      then show ?thesis by (simp add: queue bfs_loop_new new)
    qed
  qed
qed

lemma dfs_loop_Nil: "dfs_loop self [] visited = None"
  by (subst dfs_loop.simps) simp

lemma dfs_loop_old:
  "state \<in> set visited \<Longrightarrow>
     dfs_loop self (rest @ [(state, path)]) visited = dfs_loop self rest visited"
  by (subst dfs_loop.simps) simp

lemma dfs_loop_goal:
  "state \<notin> set visited \<Longrightarrow> state = goal_state self \<Longrightarrow>
     dfs_loop self (rest @ [(state, path)]) visited = Some (visited @ [state], path)"
  by (subst dfs_loop.simps) (simp add: Let_def)

lemma dfs_loop_new:
  "state \<notin> set visited \<Longrightarrow> state \<noteq> goal_state self \<Longrightarrow>
     dfs_loop self (rest @ [(state, path)]) visited =
       dfs_loop self (rest @ map (\<lambda>t. (t, path @ [t])) (successors self state))
         (visited @ [state])"
  by (subst dfs_loop.simps) (simp add: Let_def)

lemma dfs_loop_run: "search_run self (set stack) visited (dfs_loop self stack visited)"
proof (induction self stack visited rule: dfs_loop.induct)
  case (1 self stack visited)
  show ?case
  proof (cases "stack = []")
    case True
    then show ?thesis by (simp add: dfs_loop_Nil search_run.exhausted)
  next
    case False
    obtain state path where entry: "(state, path) = last stack" by (cases "last stack") simp
    define rest where "rest = butlast stack"
    have stack: "stack = rest @ [(state, path)]"
      using False entry by (simp add: rest_def)
    then have set: "set stack = insert (state, path) (set rest)" by simp
    consider (old) "state \<in> set visited"
      | (goal) "state \<notin> set visited" "state = goal_state self"
      | (new) "state \<notin> set visited" "state \<noteq> goal_state self"
      by blast
    then show ?thesis
    proof cases
      case old
      from "1.IH"(1) [OF False entry old] old
      have "search_run self (insert (state, path) (set rest)) visited (dfs_loop self rest visited)"
        unfolding rest_def by (intro search_run.skip)
      then show ?thesis unfolding set by (simp add: stack dfs_loop_old old)
    next
      case goal
      then have "search_run self (insert (state, path) (set rest)) visited
          (Some (visited @ [state], path))"
        by (intro search_run.found)
      moreover have "dfs_loop self stack visited = Some (visited @ [state], path)"
        unfolding stack using goal by (rule dfs_loop_goal)
      ultimately show ?thesis unfolding set by simp
    next
      case new
      from "1.IH"(2) [OF False entry new(1) refl new(2)]
      have "search_run self (set rest \<union> (\<lambda>t. (t, path @ [t])) ` set (successors self state))
          (visited @ [state])
          (dfs_loop self (rest @ map (\<lambda>t. (t, path @ [t])) (successors self state))
             (visited @ [state]))"
        by (simp add: rest_def)
      with new have "search_run self (insert (state, path) (set rest)) visited
          (dfs_loop self (rest @ map (\<lambda>t. (t, path @ [t])) (successors self state))
             (visited @ [state]))"
        by (intro search_run.expand)
      then show ?thesis unfolding set by (simp add: stack dfs_loop_new new)
    qed
  qed
qed

text \<open>
  The strategies with a priority compute keys from \<^verbatim>\<open>self.state_length\<close>,
  \<^verbatim>\<open>self.initial_state\<close> and \<^verbatim>\<open>self.goal_state\<close>. The constructor makes the three
  agree; then no key raises.
\<close>

definition well_formed :: "Search \<Rightarrow> bool" where
  "well_formed self \<longleftrightarrow>
     length (initial_state self) = state_length self
     \<and> length (goal_state self) = state_length self"

lemma well_formed_new_Search: "well_formed (new_Search initial)"
  by (simp add: well_formed_def new_Search_def)

lemma ucs_push_total:
  assumes "well_formed self" and "\<forall>t \<in> set succs. length t = state_length self"
  shows "\<exists>heap'. ucs_push self path heap succs = Inr heap'"
  using assms(2)
proof (induction succs arbitrary: heap)
  case Nil
  show ?case by simp
next
  case (Cons t succs)
  then have "\<exists>c. misplaced_elements_cost self t = Inr c"
    using assms(1) by (simp add: well_formed_def misplaced_elements_cost_def)
  then obtain c where "misplaced_elements_cost self t = Inr c" by blast
  with Cons show ?case by simp
qed

lemma ucs_loop_Nil: "ucs_loop self [] visited = Inr None"
  by (subst ucs_loop.simps) simp

lemma ucs_loop_old:
  "heap \<noteq> [] \<Longrightarrow> heappop heap = ((cost, state, path), heap') \<Longrightarrow> state \<in> set visited \<Longrightarrow>
     ucs_loop self heap visited = ucs_loop self heap' visited"
  by (subst ucs_loop.simps) simp

lemma ucs_loop_goal:
  "heap \<noteq> [] \<Longrightarrow> heappop heap = ((cost, state, path), heap') \<Longrightarrow> state \<notin> set visited \<Longrightarrow>
     state = goal_state self \<Longrightarrow>
     ucs_loop self heap visited = Inr (Some (visited @ [state], path))"
  by (subst ucs_loop.simps) (simp add: Let_def)

lemma ucs_loop_new:
  "heap \<noteq> [] \<Longrightarrow> heappop heap = ((cost, state, path), heap') \<Longrightarrow> state \<notin> set visited \<Longrightarrow>
     state \<noteq> goal_state self \<Longrightarrow>
     ucs_push self path heap' (successors self state) = Inr heap'' \<Longrightarrow>
     ucs_loop self heap visited = ucs_loop self heap'' (visited @ [state])"
  by (subst ucs_loop.simps) (simp add: Let_def)

lemma ucs_loop_run:
  "well_formed self \<Longrightarrow> \<forall>entry \<in> set heap. length (fst (snd entry)) = state_length self \<Longrightarrow>
     \<exists>result. ucs_loop self heap visited = Inr result
        \<and> search_run self (snd ` set heap) visited result"
proof (induction self heap visited rule: ucs_loop.induct)
  case (1 self heap visited)
  note wf = "1.prems"(1)
  show ?case
  proof (cases "heap = []")
    case True
    then show ?thesis by (simp add: ucs_loop_Nil search_run.exhausted)
  next
    case False
    obtain popped heap' where pop: "(popped, heap') = heappop heap"
      by (cases "heappop heap") simp
    obtain cost rest where e1: "(cost, rest) = popped" by (cases popped) simp
    obtain state path where e2: "(state, path) = rest" by (cases rest) simp
    have pop': "heappop heap = ((cost, state, path), heap')"
      using pop e1 [symmetric] e2 [symmetric] by simp
    note facts = heappop_facts [OF False pop']
    have set: "snd ` set heap = insert (state, path) (snd ` set heap')"
      by (subst facts(4)) simp
    have lengths': "\<forall>entry \<in> set heap'. length (fst (snd entry)) = state_length self"
      using "1.prems"(2) facts(2) by blast
    have len: "length state = state_length self"
      using "1.prems"(2) facts(1) by fastforce
    consider (old) "state \<in> set visited"
      | (goal) "state \<notin> set visited" "state = goal_state self"
      | (new) "state \<notin> set visited" "state \<noteq> goal_state self"
      by blast
    then show ?thesis
    proof cases
      case old
      from "1.IH"(1) [OF False pop e1 e2 old wf lengths']
      obtain result where r: "ucs_loop self heap' visited = Inr result"
        "search_run self (snd ` set heap') visited result"
        by blast
      from old r(2) have "search_run self (insert (state, path) (snd ` set heap')) visited result"
        by (rule search_run.skip)
      moreover have "ucs_loop self heap visited = Inr result"
        using ucs_loop_old [OF False pop' old] r(1) by simp
      ultimately show ?thesis unfolding set by blast
    next
      case goal
      then have "search_run self (insert (state, path) (snd ` set heap')) visited
          (Some (visited @ [state], path))"
        by (intro search_run.found)
      moreover have "ucs_loop self heap visited = Inr (Some (visited @ [state], path))"
        using False pop' goal by (rule ucs_loop_goal)
      ultimately show ?thesis unfolding set by blast
    next
      case new
      have "\<forall>t \<in> set (successors self state). length t = state_length self"
        using len by (simp add: length_successor)
      with wf obtain heap'' where
        push: "ucs_push self path heap' (successors self state) = Inr heap''"
        using ucs_push_total by blast
      note entries = ucs_push_entries [OF push]
      have "set (map snd heap'') = set (map snd heap' @ map (\<lambda>t. (t, path @ [t])) (successors self state))"
        by (simp only: entries)
      then have set'': "snd ` set heap'' =
          snd ` set heap' \<union> (\<lambda>t. (t, path @ [t])) ` set (successors self state)"
        by simp
      have lengths'': "\<forall>entry \<in> set heap''. length (fst (snd entry)) = state_length self"
      proof
        fix entry assume "entry \<in> set heap''"
        then have "snd entry \<in> snd ` set heap''" by simp
        then have "snd entry \<in> snd ` set heap'
            \<or> snd entry \<in> (\<lambda>t. (t, path @ [t])) ` set (successors self state)"
          unfolding set'' by simp
        then show "length (fst (snd entry)) = state_length self"
          using lengths' len by (auto simp: length_successor)
      qed
      from "1.IH"(2) [OF False pop e1 e2 new(1) refl new(2) push wf lengths'']
      obtain result where r: "ucs_loop self heap'' (visited @ [state]) = Inr result"
        "search_run self (snd ` set heap'') (visited @ [state]) result"
        by blast
      from new r(2) have "search_run self (insert (state, path) (snd ` set heap')) visited result"
        unfolding set'' by (rule search_run.expand)
      moreover have "ucs_loop self heap visited = Inr result"
        using ucs_loop_new [OF False pop' new push] r(1) by simp
      ultimately show ?thesis unfolding set by blast
    qed
  qed
qed

lemma greedy_push_total:
  assumes "well_formed self" and "\<forall>t \<in> set succs. length t = state_length self"
  shows "\<exists>heap'. greedy_push self path heap succs = Inr heap'"
  using assms(2)
proof (induction succs arbitrary: heap)
  case Nil
  show ?case by simp
next
  case (Cons t succs)
  then have "\<exists>c. absolute_difference_heuristic self t = Inr c"
    using assms(1) by (simp add: well_formed_def absolute_difference_heuristic_def)
  then obtain c where "absolute_difference_heuristic self t = Inr c" by blast
  with Cons show ?case by simp
qed

lemma greedy_loop_Nil: "greedy_loop self [] visited = Inr None"
  by (subst greedy_loop.simps) simp

lemma greedy_loop_old:
  "heap \<noteq> [] \<Longrightarrow> heappop heap = ((cost, state, path), heap') \<Longrightarrow> state \<in> set visited \<Longrightarrow>
     greedy_loop self heap visited = greedy_loop self heap' visited"
  by (subst greedy_loop.simps) simp

lemma greedy_loop_goal:
  "heap \<noteq> [] \<Longrightarrow> heappop heap = ((cost, state, path), heap') \<Longrightarrow> state \<notin> set visited \<Longrightarrow>
     state = goal_state self \<Longrightarrow>
     greedy_loop self heap visited = Inr (Some (visited @ [state], path))"
  by (subst greedy_loop.simps) (simp add: Let_def)

lemma greedy_loop_new:
  "heap \<noteq> [] \<Longrightarrow> heappop heap = ((cost, state, path), heap') \<Longrightarrow> state \<notin> set visited \<Longrightarrow>
     state \<noteq> goal_state self \<Longrightarrow>
     greedy_push self path heap' (successors self state) = Inr heap'' \<Longrightarrow>
     greedy_loop self heap visited = greedy_loop self heap'' (visited @ [state])"
  by (subst greedy_loop.simps) (simp add: Let_def)

lemma greedy_loop_run:
  "well_formed self \<Longrightarrow> \<forall>entry \<in> set heap. length (fst (snd entry)) = state_length self \<Longrightarrow>
     \<exists>result. greedy_loop self heap visited = Inr result
        \<and> search_run self (snd ` set heap) visited result"
proof (induction self heap visited rule: greedy_loop.induct)
  case (1 self heap visited)
  note wf = "1.prems"(1)
  show ?case
  proof (cases "heap = []")
    case True
    then show ?thesis by (simp add: greedy_loop_Nil search_run.exhausted)
  next
    case False
    obtain popped heap' where pop: "(popped, heap') = heappop heap"
      by (cases "heappop heap") simp
    obtain cost rest where e1: "(cost, rest) = popped" by (cases popped) simp
    obtain state path where e2: "(state, path) = rest" by (cases rest) simp
    have pop': "heappop heap = ((cost, state, path), heap')"
      using pop e1 [symmetric] e2 [symmetric] by simp
    note facts = heappop_facts [OF False pop']
    have set: "snd ` set heap = insert (state, path) (snd ` set heap')"
      by (subst facts(4)) simp
    have lengths': "\<forall>entry \<in> set heap'. length (fst (snd entry)) = state_length self"
      using "1.prems"(2) facts(2) by blast
    have len: "length state = state_length self"
      using "1.prems"(2) facts(1) by fastforce
    consider (old) "state \<in> set visited"
      | (goal) "state \<notin> set visited" "state = goal_state self"
      | (new) "state \<notin> set visited" "state \<noteq> goal_state self"
      by blast
    then show ?thesis
    proof cases
      case old
      from "1.IH"(1) [OF False pop e1 e2 old wf lengths']
      obtain result where r: "greedy_loop self heap' visited = Inr result"
        "search_run self (snd ` set heap') visited result"
        by blast
      from old r(2) have "search_run self (insert (state, path) (snd ` set heap')) visited result"
        by (rule search_run.skip)
      moreover have "greedy_loop self heap visited = Inr result"
        using greedy_loop_old [OF False pop' old] r(1) by simp
      ultimately show ?thesis unfolding set by blast
    next
      case goal
      then have "search_run self (insert (state, path) (snd ` set heap')) visited
          (Some (visited @ [state], path))"
        by (intro search_run.found)
      moreover have "greedy_loop self heap visited = Inr (Some (visited @ [state], path))"
        using False pop' goal by (rule greedy_loop_goal)
      ultimately show ?thesis unfolding set by blast
    next
      case new
      have "\<forall>t \<in> set (successors self state). length t = state_length self"
        using len by (simp add: length_successor)
      with wf obtain heap'' where
        push: "greedy_push self path heap' (successors self state) = Inr heap''"
        using greedy_push_total by blast
      note entries = greedy_push_entries [OF push]
      have "set (map snd heap'') = set (map snd heap' @ map (\<lambda>t. (t, path @ [t])) (successors self state))"
        by (simp only: entries)
      then have set'': "snd ` set heap'' =
          snd ` set heap' \<union> (\<lambda>t. (t, path @ [t])) ` set (successors self state)"
        by simp
      have lengths'': "\<forall>entry \<in> set heap''. length (fst (snd entry)) = state_length self"
      proof
        fix entry assume "entry \<in> set heap''"
        then have "snd entry \<in> snd ` set heap''" by simp
        then have "snd entry \<in> snd ` set heap'
            \<or> snd entry \<in> (\<lambda>t. (t, path @ [t])) ` set (successors self state)"
          unfolding set'' by simp
        then show "length (fst (snd entry)) = state_length self"
          using lengths' len by (auto simp: length_successor)
      qed
      from "1.IH"(2) [OF False pop e1 e2 new(1) refl new(2) push wf lengths'']
      obtain result where r: "greedy_loop self heap'' (visited @ [state]) = Inr result"
        "search_run self (snd ` set heap'') (visited @ [state]) result"
        by blast
      from new r(2) have "search_run self (insert (state, path) (snd ` set heap')) visited result"
        unfolding set'' by (rule search_run.expand)
      moreover have "greedy_loop self heap visited = Inr result"
        using greedy_loop_new [OF False pop' new push] r(1) by simp
      ultimately show ?thesis unfolding set by blast
    qed
  qed
qed

lemma a_star_push_total:
  assumes "well_formed self" and "\<forall>t \<in> set succs. length t = state_length self"
  shows "\<exists>heap'. a_star_push self path heap succs = Inr heap'"
  using assms(2)
proof (induction succs arbitrary: heap)
  case Nil
  show ?case by simp
next
  case (Cons t succs)
  then have "\<exists>c h. misplaced_elements_cost self t = Inr c \<and> absolute_difference_heuristic self t = Inr h"
    using assms(1) by (simp add: well_formed_def misplaced_elements_cost_def absolute_difference_heuristic_def)
  then obtain c h where "misplaced_elements_cost self t = Inr c \<and> absolute_difference_heuristic self t = Inr h" by blast
  with Cons show ?case by simp
qed

lemma a_star_loop_Nil: "a_star_loop self [] visited = Inr None"
  by (subst a_star_loop.simps) simp

lemma a_star_loop_old:
  "heap \<noteq> [] \<Longrightarrow> heappop heap = ((f, cost, state, path), heap') \<Longrightarrow> state \<in> set visited \<Longrightarrow>
     a_star_loop self heap visited = a_star_loop self heap' visited"
  by (subst a_star_loop.simps) simp

lemma a_star_loop_goal:
  "heap \<noteq> [] \<Longrightarrow> heappop heap = ((f, cost, state, path), heap') \<Longrightarrow> state \<notin> set visited \<Longrightarrow>
     state = goal_state self \<Longrightarrow>
     a_star_loop self heap visited = Inr (Some (visited @ [state], path))"
  by (subst a_star_loop.simps) (simp add: Let_def)

lemma a_star_loop_new:
  "heap \<noteq> [] \<Longrightarrow> heappop heap = ((f, cost, state, path), heap') \<Longrightarrow> state \<notin> set visited \<Longrightarrow>
     state \<noteq> goal_state self \<Longrightarrow>
     a_star_push self path heap' (successors self state) = Inr heap'' \<Longrightarrow>
     a_star_loop self heap visited = a_star_loop self heap'' (visited @ [state])"
  by (subst a_star_loop.simps) (simp add: Let_def)

lemma a_star_loop_run:
  "well_formed self \<Longrightarrow> \<forall>entry \<in> set heap. length (fst ((snd \<circ> snd) entry)) = state_length self \<Longrightarrow>
     \<exists>result. a_star_loop self heap visited = Inr result
        \<and> search_run self ((snd \<circ> snd) ` set heap) visited result"
proof (induction self heap visited rule: a_star_loop.induct)
  case (1 self heap visited)
  note wf = "1.prems"(1)
  show ?case
  proof (cases "heap = []")
    case True
    then show ?thesis by (simp add: a_star_loop_Nil search_run.exhausted)
  next
    case False
    obtain popped heap' where pop: "(popped, heap') = heappop heap"
      by (cases "heappop heap") simp
    obtain f rest where e1: "(f, rest) = popped" by (cases popped) simp
    obtain cost rest' where e2: "(cost, rest') = rest" by (cases rest) simp
    obtain state path where e3: "(state, path) = rest'" by (cases rest') simp
    have pop': "heappop heap = ((f, cost, state, path), heap')"
      using pop e1 [symmetric] e2 [symmetric] e3 [symmetric] by simp
    note facts = heappop_facts [OF False pop']
    have set: "(snd \<circ> snd) ` set heap = insert (state, path) ((snd \<circ> snd) ` set heap')"
      by (subst facts(4)) simp
    have lengths': "\<forall>entry \<in> set heap'. length (fst ((snd \<circ> snd) entry)) = state_length self"
      using "1.prems"(2) facts(2) by blast
    have len: "length state = state_length self"
      using "1.prems"(2) facts(1) by fastforce
    consider (old) "state \<in> set visited"
      | (goal) "state \<notin> set visited" "state = goal_state self"
      | (new) "state \<notin> set visited" "state \<noteq> goal_state self"
      by blast
    then show ?thesis
    proof cases
      case old
      from "1.IH"(1) [OF False pop e1 e2 e3 old wf lengths']
      obtain result where r: "a_star_loop self heap' visited = Inr result"
        "search_run self ((snd \<circ> snd) ` set heap') visited result"
        by blast
      from old r(2) have "search_run self (insert (state, path) ((snd \<circ> snd) ` set heap')) visited result"
        by (rule search_run.skip)
      moreover have "a_star_loop self heap visited = Inr result"
        using a_star_loop_old [OF False pop' old] r(1) by simp
      ultimately show ?thesis unfolding set by blast
    next
      case goal
      then have "search_run self (insert (state, path) ((snd \<circ> snd) ` set heap')) visited
          (Some (visited @ [state], path))"
        by (intro search_run.found)
      moreover have "a_star_loop self heap visited = Inr (Some (visited @ [state], path))"
        using False pop' goal by (rule a_star_loop_goal)
      ultimately show ?thesis unfolding set by blast
    next
      case new
      have "\<forall>t \<in> set (successors self state). length t = state_length self"
        using len by (simp add: length_successor)
      with wf obtain heap'' where
        push: "a_star_push self path heap' (successors self state) = Inr heap''"
        using a_star_push_total by blast
      note entries = a_star_push_entries [OF push]
      have "set (map (snd \<circ> snd) heap'') = set (map (snd \<circ> snd) heap' @ map (\<lambda>t. (t, path @ [t])) (successors self state))"
        by (simp only: entries)
      then have set'': "(snd \<circ> snd) ` set heap'' =
          (snd \<circ> snd) ` set heap' \<union> (\<lambda>t. (t, path @ [t])) ` set (successors self state)"
        by simp
      have lengths'': "\<forall>entry \<in> set heap''. length (fst ((snd \<circ> snd) entry)) = state_length self"
      proof
        fix entry assume "entry \<in> set heap''"
        then have "(snd \<circ> snd) entry \<in> (snd \<circ> snd) ` set heap''" by simp
        then have "(snd \<circ> snd) entry \<in> (snd \<circ> snd) ` set heap'
            \<or> (snd \<circ> snd) entry \<in> (\<lambda>t. (t, path @ [t])) ` set (successors self state)"
          unfolding set'' by simp
        then show "length (fst ((snd \<circ> snd) entry)) = state_length self"
          using lengths' len by (auto simp: length_successor)
      qed
      from "1.IH"(2) [OF False pop e1 e2 e3 new(1) refl new(2) push wf lengths'']
      obtain result where r: "a_star_loop self heap'' (visited @ [state]) = Inr result"
        "search_run self ((snd \<circ> snd) ` set heap'') (visited @ [state]) result"
        by blast
      from new r(2) have "search_run self (insert (state, path) ((snd \<circ> snd) ` set heap')) visited result"
        unfolding set'' by (rule search_run.expand)
      moreover have "a_star_loop self heap visited = Inr result"
        using a_star_loop_new [OF False pop' new push] r(1) by simp
      ultimately show ?thesis unfolding set by blast
    qed
  qed
qed

subsection \<open>What a run of the search returns\<close>

lemma search_run_result:
  assumes "search_run self frontier visited result"
    and "frontier_invariant self frontier visited"
  shows "(result = None \<longrightarrow> (\<exists>visited'. frontier_invariant self {} visited'))
       \<and> (\<forall>v p. result = Some (v, p) \<longrightarrow>
             distinct v \<and> p \<noteq> [] \<and> hd p = initial_state self \<and> last p = goal_state self
             \<and> swap_chain self p \<and> distinct p \<and> set p \<subseteq> set v)"
  using assms
proof (induction rule: search_run.induct)
  case (exhausted visited)
  then show ?case by blast
next
  case (skip state visited rest result path)
  from skip.prems skip.hyps(1) have "frontier_invariant self rest visited"
    by (rule frontier_invariant_skip)
  then show ?case by (rule skip.IH)
next
  case (found state visited path rest)
  note D = frontier_invariantD [OF found.prems]
  have "entry_invariant self visited (state, path)" by (rule D(4)) simp
  then have p: "path \<noteq> []" "hd path = initial_state self" "last path = state"
      "swap_chain self path" "distinct (butlast path)" "set (butlast path) \<subseteq> set visited"
    by (simp_all add: entry_invariant_def)
  from p(1,3) have path: "path = butlast path @ [state]"
    by (metis append_butlast_last_id)
  have "distinct (butlast path @ [state])"
    using p(5,6) found.hyps(1) by auto
  with path have d: "distinct path" by simp
  have s: "set path \<subseteq> set (visited @ [state])"
    using p(6) by (subst path) auto
  have "distinct (visited @ [state])"
    using D(1) found.hyps(1) by simp
  with p(1,2,3,4) d s found.hyps(2) show ?case by simp
next
  case (expand state visited rest path result)
  from expand.prems expand.hyps(1,2)
  have "frontier_invariant self
      (rest \<union> (\<lambda>t. (t, path @ [t])) ` set (successors self state)) (visited @ [state])"
    by (rule frontier_invariant_expand)
  then show ?case by (rule expand.IH)
qed

lemma frontier_not_exhausted:
  assumes "frontier_invariant self {} visited"
    and "adjacent_step\<^sup>*\<^sup>* (initial_state self) (goal_state self)"
  shows False
proof -
  note D = frontier_invariantD [OF assms(1)]
  have "initial_state self \<in> set visited" using D(5) by simp
  with assms(2) have "goal_state self \<in> set visited"
  proof (rule closed_contains_reachable)
    show "length v = state_length self" if "v \<in> set visited" for v
      using that by (rule D(3))
    show "t \<in> set visited" if "v \<in> set visited" "t \<in> set (successors self v)" for v t
      using D(6) [OF that] by simp
  qed
  with D(2) show False by contradiction
qed

lemma new_Search_simps:
  "initial_state (new_Search initial) = initial"
  "goal_state (new_Search initial) = sort initial"
  "state_length (new_Search initial) = length initial"
  by (simp_all add: new_Search_def)

lemma search_run_new_Search:
  assumes "search_run (new_Search initial) {(initial, [initial])} [] result"
  shows "\<exists>v p. result = Some (v, p)
       \<and> distinct v \<and> p \<noteq> [] \<and> hd p = initial \<and> last p = sort initial
       \<and> swap_chain (new_Search initial) p \<and> distinct p \<and> set p \<subseteq> set v"
proof -
  let ?self = "new_Search initial"
  have "frontier_invariant ?self {(initial_state ?self, [initial_state ?self])} []"
    by (rule frontier_invariant_initial) (simp add: new_Search_simps)
  then have inv: "frontier_invariant ?self {(initial, [initial])} []"
    by (simp add: new_Search_simps)
  note result = search_run_result [OF assms inv]
  have reach: "adjacent_step\<^sup>*\<^sup>* (initial_state ?self) (goal_state ?self)"
    by (simp add: new_Search_simps adjacent_reach_sort)
  have "result \<noteq> None"
  proof
    assume "result = None"
    with result obtain visited' where "frontier_invariant ?self {} visited'" by blast
    then show False using reach by (rule frontier_not_exhausted)
  qed
  then obtain v p where "result = Some (v, p)" by (cases result) auto
  with result show ?thesis by (simp add: new_Search_simps)
qed

lemma breadth_first_search_run:
  "search_run (new_Search initial) {(initial, [initial])} []
     (breadth_first_search (new_Search initial))"
  using bfs_loop_run [of "new_Search initial" "[(initial, [initial])]" "[]"]
  by (simp add: breadth_first_search_def new_Search_simps)

lemma depth_first_search_run:
  "search_run (new_Search initial) {(initial, [initial])} []
     (depth_first_search (new_Search initial))"
  using dfs_loop_run [of "new_Search initial" "[(initial, [initial])]" "[]"]
  by (simp add: depth_first_search_def new_Search_simps)

lemma uniform_cost_search_run:
  "\<exists>result. uniform_cost_search (new_Search initial) = Inr result
     \<and> search_run (new_Search initial) {(initial, [initial])} [] result"
  using ucs_loop_run [OF well_formed_new_Search, of "[(0, initial, [initial])]" initial "[]"]
  by (simp add: uniform_cost_search_def new_Search_simps)

lemma greedy_search_run:
  "\<exists>result. greedy_search (new_Search initial) = Inr result
     \<and> search_run (new_Search initial) {(initial, [initial])} [] result"
proof -
  obtain h where h: "absolute_difference_heuristic (new_Search initial) initial = Inr h"
    using absolute_difference_initial by blast
  from greedy_loop_run [OF well_formed_new_Search, of "[(h, initial, [initial])]" initial "[]"]
  show ?thesis by (simp add: greedy_search_def new_Search_simps h)
qed

lemma a_star_search_run:
  "\<exists>result. a_star_search (new_Search initial) = Inr result
     \<and> search_run (new_Search initial) {(initial, [initial])} [] result"
proof -
  obtain h where h: "absolute_difference_heuristic (new_Search initial) initial = Inr h"
    using absolute_difference_initial by blast
  from a_star_loop_run [OF well_formed_new_Search, of "[(h, 0, initial, [initial])]" initial "[]"]
  show ?thesis by (simp add: a_star_search_def new_Search_simps h)
qed

lemma frontier_strategies_run:
  assumes "r \<in> set (frontier_strategies (new_Search initial))"
  shows "\<exists>result. r = Inr result
     \<and> search_run (new_Search initial) {(initial, [initial])} [] result"
  using assms breadth_first_search_run [of initial] depth_first_search_run [of initial]
    uniform_cost_search_run [of initial] greedy_search_run [of initial]
    a_star_search_run [of initial]
  unfolding frontier_strategies_def by auto

lemma frontier_strategies_result:
  assumes "r \<in> set (frontier_strategies (new_Search initial))"
  shows "\<exists>v p. r = Inr (Some (v, p))
       \<and> distinct v \<and> p \<noteq> [] \<and> hd p = initial \<and> last p = sort initial
       \<and> swap_chain (new_Search initial) p \<and> distinct p \<and> set p \<subseteq> set v"
proof -
  from frontier_strategies_run [OF assms] obtain result where "r = Inr result"
    and "search_run (new_Search initial) {(initial, [initial])} [] result"
    by blast
  with search_run_new_Search [of initial result] show ?thesis by blast
qed

section \<open>Results of the five frontier strategies\<close>

text \<open>
  C1. For every initial sequence each of the five frontier strategies returns (the loops
  are total functions), the result is a pair of a visited log and a path, never the
  \<^verbatim>\<open>None\<close> of an empty frontier and never an error, and the last state of the path is
  the ascending sort of the initial sequence.
\<close>

theorem frontier_strategies_reach_goal:
  "(\<exists>v p. breadth_first_search (new_Search initial) = Some (v, p)
        \<and> p \<noteq> [] \<and> last p = sort initial)
   \<and> (\<exists>v p. depth_first_search (new_Search initial) = Some (v, p)
        \<and> p \<noteq> [] \<and> last p = sort initial)
   \<and> (\<exists>v p. uniform_cost_search (new_Search initial) = Inr (Some (v, p))
        \<and> p \<noteq> [] \<and> last p = sort initial)
   \<and> (\<exists>v p. greedy_search (new_Search initial) = Inr (Some (v, p))
        \<and> p \<noteq> [] \<and> last p = sort initial)
   \<and> (\<exists>v p. a_star_search (new_Search initial) = Inr (Some (v, p))
        \<and> p \<noteq> [] \<and> last p = sort initial)"
proof -
  have each: "\<exists>v p. r = Inr (Some (v, p)) \<and> p \<noteq> [] \<and> last p = sort initial"
    if "r \<in> set (frontier_strategies (new_Search initial))" for r
    using frontier_strategies_result [OF that] by blast
  have "\<exists>v p. Inr (breadth_first_search (new_Search initial)) = (Inr (Some (v, p)) :: error + outcome)
      \<and> p \<noteq> [] \<and> last p = sort initial"
    by (rule each) (simp add: frontier_strategies_def)
  moreover have "\<exists>v p. Inr (depth_first_search (new_Search initial)) = (Inr (Some (v, p)) :: error + outcome)
      \<and> p \<noteq> [] \<and> last p = sort initial"
    by (rule each) (simp add: frontier_strategies_def)
  moreover have "\<exists>v p. uniform_cost_search (new_Search initial) = Inr (Some (v, p))
      \<and> p \<noteq> [] \<and> last p = sort initial"
    by (rule each) (simp add: frontier_strategies_def)
  moreover have "\<exists>v p. greedy_search (new_Search initial) = Inr (Some (v, p))
      \<and> p \<noteq> [] \<and> last p = sort initial"
    by (rule each) (simp add: frontier_strategies_def)
  moreover have "\<exists>v p. a_star_search (new_Search initial) = Inr (Some (v, p))
      \<and> p \<noteq> [] \<and> last p = sort initial"
    by (rule each) (simp add: frontier_strategies_def)
  ultimately show ?thesis by simp
qed

lemma run_312:
  "breadth_first_search (new_Search [3, 1, 2]) =
     Some ([[3, 1, 2], [1, 3, 2], [3, 2, 1], [1, 2, 3]], [[3, 1, 2], [1, 3, 2], [1, 2, 3]])"
  "depth_first_search (new_Search [3, 1, 2]) =
     Some ([[3, 1, 2], [3, 2, 1], [2, 3, 1], [2, 1, 3], [1, 2, 3]],
           [[3, 1, 2], [3, 2, 1], [2, 3, 1], [2, 1, 3], [1, 2, 3]])"
  "uniform_cost_search (new_Search [3, 1, 2]) =
     Inr (Some ([[3, 1, 2], [1, 3, 2], [3, 2, 1], [1, 2, 3]], [[3, 1, 2], [1, 3, 2], [1, 2, 3]]))"
  "greedy_search (new_Search [3, 1, 2]) =
     Inr (Some ([[3, 1, 2], [1, 3, 2], [1, 2, 3]], [[3, 1, 2], [1, 3, 2], [1, 2, 3]]))"
  "a_star_search (new_Search [3, 1, 2]) =
     Inr (Some ([[3, 1, 2], [1, 3, 2], [1, 2, 3]], [[3, 1, 2], [1, 3, 2], [1, 2, 3]]))"
  by code_simp+

theorem frontier_strategies_reach_goal_witness:
  "breadth_first_search (new_Search [3, 1, 2]) =
     Some ([[3, 1, 2], [1, 3, 2], [3, 2, 1], [1, 2, 3]], [[3, 1, 2], [1, 3, 2], [1, 2, 3]])
   \<and> depth_first_search (new_Search [3, 1, 2]) =
     Some ([[3, 1, 2], [3, 2, 1], [2, 3, 1], [2, 1, 3], [1, 2, 3]],
           [[3, 1, 2], [3, 2, 1], [2, 3, 1], [2, 1, 3], [1, 2, 3]])
   \<and> a_star_search (new_Search [3, 1, 2]) =
     Inr (Some ([[3, 1, 2], [1, 3, 2], [1, 2, 3]], [[3, 1, 2], [1, 3, 2], [1, 2, 3]]))
   \<and> sort [3, 1, 2 :: int] = [1, 2, 3]
   \<and> (\<exists>v p. uniform_cost_search (new_Search [3, 1, 2]) = Inr (Some (v, p))
         \<and> p \<noteq> [] \<and> last p = [1, 2, 3])"
  using frontier_strategies_reach_goal [of "[3, 1, 2]"] run_312 by simp

text \<open>
  Two states are one adjacent-pair swap apart when they differ and the second is the first
  with the values at some positions i and i + 1 exchanged.
\<close>

definition one_swap_apart :: "state \<Rightarrow> state \<Rightarrow> bool" where
  "one_swap_apart a b \<longleftrightarrow>
     a \<noteq> b \<and> (\<exists>i \<in> set [0..<length a - 1]. b = a[i := a ! (i + 1), i + 1 := a ! i])"

lemma successor_one_swap_apart:
  assumes "b \<in> set (successors self a)" and "a \<noteq> b"
  shows "one_swap_apart a b"
proof -
  from assms(1) obtain i where b: "b = swap_adjacent a i"
    by (auto simp: successors_def)
  have "i + 1 < length a"
  proof (rule ccontr)
    assume "\<not> i + 1 < length a"
    then have "swap_adjacent a i = a" by (intro swap_adjacent_out_of_range) simp
    with b assms(2) show False by simp
  qed
  then have "b = a[i := a ! (i + 1), i + 1 := a ! i]" and "i \<in> set [0..<length a - 1]"
    using b by (simp_all add: swap_adjacent_in_range less_diff_conv)
  with assms(2) show ?thesis unfolding one_swap_apart_def by blast
qed

lemma swap_chain_one_swap_apart:
  assumes "swap_chain self p" and "distinct p" and "k + 1 < length p"
  shows "one_swap_apart (p ! k) (p ! (k + 1))"
proof -
  from assms(1,3) have "p ! (k + 1) \<in> set (successors self (p ! k))"
    by (simp add: swap_chain_def successively_conv_nth)
  moreover from assms(2,3) have "p ! k \<noteq> p ! (k + 1)"
    by (simp add: nth_eq_iff_index_eq)
  ultimately show ?thesis by (rule successor_one_swap_apart)
qed

text \<open>
  C4. The path of every successful result of the five frontier strategies starts with
  the initial state, ends with the goal (the sorted sequence), and each entry after the
  first is one adjacent-pair swap apart from the entry before it: the path has one
  entry for the initial state and one more for every transition.
\<close>

theorem frontier_paths_well_formed:
  assumes "Inr (Some (v, p)) \<in> set (frontier_strategies (new_Search initial))"
  shows "p \<noteq> [] \<and> hd p = initial \<and> last p = sort initial
       \<and> last p = goal_state (new_Search initial)
       \<and> (\<forall>k. k + 1 < length p \<longrightarrow> one_swap_apart (p ! k) (p ! (k + 1)))"
proof -
  from frontier_strategies_result [OF assms]
  have p: "p \<noteq> []" "hd p = initial" "last p = sort initial"
    "swap_chain (new_Search initial) p" "distinct p"
    by auto
  from p(4,5) have "one_swap_apart (p ! k) (p ! (k + 1))" if "k + 1 < length p" for k
    using that by (rule swap_chain_one_swap_apart)
  with p(1,2,3) show ?thesis by (simp add: new_Search_simps)
qed

theorem frontier_paths_well_formed_witness:
  "Inr (Some ([[3, 1, 2], [3, 2, 1], [2, 3, 1], [2, 1, 3], [1, 2, 3]],
              [[3, 1, 2], [3, 2, 1], [2, 3, 1], [2, 1, 3], [1, 2, 3]]))
     \<in> set (frontier_strategies (new_Search [3, 1, 2]))
   \<and> sort [3, 1, 2 :: int] = [1, 2, 3]
   \<and> one_swap_apart [3, 1, 2] [3, 2, 1]
   \<and> one_swap_apart [3, 2, 1] [2, 3, 1]
   \<and> one_swap_apart [2, 3, 1] [2, 1, 3]
   \<and> one_swap_apart [2, 1, 3] [1, 2, 3]"
proof -
  let ?p = "[[3, 1, 2], [3, 2, 1], [2, 3, 1], [2, 1, 3], [1, 2, 3 :: int]]"
  have m: "Inr (Some (?p, ?p)) \<in> set (frontier_strategies (new_Search [3, 1, 2]))"
    by (simp add: frontier_strategies_def run_312)
  from frontier_paths_well_formed [OF m]
  have step: "\<forall>k. k + 1 < length ?p \<longrightarrow> one_swap_apart (?p ! k) (?p ! (k + 1))"
    and goal: "last ?p = sort [3, 1, 2]"
    by blast+
  have "one_swap_apart (?p ! 0) (?p ! (0 + 1))" using step by (rule allE [of _ 0]) simp
  then have s0: "one_swap_apart [3, 1, 2] [3, 2, 1]" by simp
  have "one_swap_apart (?p ! 1) (?p ! (1 + 1))" using step by (rule allE [of _ 1]) simp
  then have s1: "one_swap_apart [3, 2, 1] [2, 3, 1]" by simp
  have "one_swap_apart (?p ! 2) (?p ! (2 + 1))" using step by (rule allE [of _ 2]) simp
  then have s2: "one_swap_apart [2, 3, 1] [2, 1, 3]" by simp
  have "one_swap_apart (?p ! 3) (?p ! (3 + 1))" using step by (rule allE [of _ 3]) simp
  then have s3: "one_swap_apart [2, 1, 3] [1, 2, 3]" by simp
  from goal have "sort [3, 1, 2 :: int] = [1, 2, 3]" by simp
  with m s0 s1 s2 s3 show ?thesis by blast
qed

text \<open>
  C5. The visited log returned by each of the five frontier strategies holds no state
  twice.
\<close>

theorem visited_log_distinct:
  assumes "Inr (Some (v, p)) \<in> set (frontier_strategies (new_Search initial))"
  shows "distinct v"
  using frontier_strategies_result [OF assms] by auto

theorem visited_log_distinct_witness:
  "Inr (Some ([[3, 1, 2], [1, 3, 2], [3, 2, 1], [1, 2, 3]], [[3, 1, 2], [1, 3, 2], [1, 2, 3]]))
     \<in> set (frontier_strategies (new_Search [3, 1, 2]))
   \<and> distinct [[3, 1, 2], [1, 3, 2], [3, 2, 1], [1, 2, 3 :: int]]"
proof -
  have m: "Inr (Some ([[3, 1, 2], [1, 3, 2], [3, 2, 1], [1, 2, 3]],
                      [[3, 1, 2], [1, 3, 2], [1, 2, 3]]))
      \<in> set (frontier_strategies (new_Search [3, 1, 2]))"
    by (simp add: frontier_strategies_def run_312)
  from visited_log_distinct [OF m] m show ?thesis by blast
qed

lemma list_index_member:
  "x \<in> set xs \<Longrightarrow> \<exists>i. list_index xs x = Inr i \<and> i < length xs \<and> xs ! i = x"
  by (induction xs) auto

lemma print_final_path_succeeds:
  "set path \<subseteq> set visited \<Longrightarrow>
     \<exists>lines. print_final_path visited path = Inr lines \<and> map snd lines = path
        \<and> (\<forall>line \<in> set lines. fst line < length visited \<and> visited ! fst line = snd line)"
proof (induction path)
  case Nil
  show ?case by simp
next
  case (Cons state path)
  then obtain i where i: "list_index visited state = Inr i" "i < length visited" "visited ! i = state"
    using list_index_member [of state visited] by auto
  from Cons obtain lines where "print_final_path visited path = Inr lines" "map snd lines = path"
    "\<forall>line \<in> set lines. fst line < length visited \<and> visited ! fst line = snd line"
    by auto
  with i show ?case by simp
qed

text \<open>
  C10. Every state of the path returned by one of the five frontier strategies is in the
  visited log returned with it, so each lookup of \<^verbatim>\<open>print_final_path\<close> succeeds: it
  prints one line for each state of the path, with an index at which the visited log
  holds this state.
\<close>

theorem path_states_visited:
  assumes "Inr (Some (v, p)) \<in> set (frontier_strategies (new_Search initial))"
  shows "set p \<subseteq> set v
       \<and> (\<exists>lines. print_final_path v p = Inr lines \<and> map snd lines = p
            \<and> (\<forall>line \<in> set lines. fst line < length v \<and> v ! fst line = snd line))"
proof -
  from frontier_strategies_result [OF assms] have "set p \<subseteq> set v" by auto
  with print_final_path_succeeds [of p v] show ?thesis by blast
qed

theorem path_states_visited_witness:
  "Inr (Some ([[3, 1, 2], [1, 3, 2], [3, 2, 1], [1, 2, 3]], [[3, 1, 2], [1, 3, 2], [1, 2, 3]]))
     \<in> set (frontier_strategies (new_Search [3, 1, 2]))
   \<and> set [[3, 1, 2], [1, 3, 2], [1, 2, 3 :: int]]
       \<subseteq> set [[3, 1, 2], [1, 3, 2], [3, 2, 1], [1, 2, 3]]
   \<and> print_final_path [[3, 1, 2], [1, 3, 2], [3, 2, 1], [1, 2, 3]]
        [[3, 1, 2], [1, 3, 2], [1, 2, 3]]
      = Inr [(0, [3, 1, 2]), (1, [1, 3, 2]), (3, [1, 2, 3])]"
proof -
  have m: "Inr (Some ([[3, 1, 2], [1, 3, 2], [3, 2, 1], [1, 2, 3]],
                      [[3, 1, 2], [1, 3, 2], [1, 2, 3]]))
      \<in> set (frontier_strategies (new_Search [3, 1, 2]))"
    by (simp add: frontier_strategies_def run_312)
  have lines: "print_final_path [[3, 1, 2], [1, 3, 2], [3, 2, 1], [1, 2, 3]]
        [[3, 1, 2], [1, 3, 2], [1, 2, 3]]
      = Inr [(0, [3, 1, 2]), (1, [1, 3, 2]), (3, [1, 2, 3])]"
    by simp
  from path_states_visited [OF m] have
    "set [[3, 1, 2], [1, 3, 2], [1, 2, 3 :: int]] \<subseteq> set [[3, 1, 2], [1, 3, 2], [3, 2, 1], [1, 2, 3]]"
    by blast
  with m lines show ?thesis by blast
qed

section \<open>Breadth-first search returns a shortest path\<close>

text \<open>
  A route to a state is a path from the initial state to it in which each entry is a
  successor of the entry before it.
\<close>

definition route :: "Search \<Rightarrow> path \<Rightarrow> state \<Rightarrow> bool" where
  "route self p t \<longleftrightarrow> p \<noteq> [] \<and> hd p = initial_state self \<and> last p = t \<and> swap_chain self p"

text \<open>
  The queue holds paths of the length of its front path first and then paths of one more
  entry. Every state with a route shorter than the front path is visited, and every
  unvisited state with a route as long as the front path has an entry of this length.
\<close>

definition level_invariant :: "Search \<Rightarrow> (state \<times> path) list \<Rightarrow> state list \<Rightarrow> bool" where
  "level_invariant self queue visited \<longleftrightarrow>
     queue = [] \<or>
     (sorted (map (length \<circ> snd) queue)
      \<and> (\<forall>entry \<in> set queue. length (snd entry) \<le> length (snd (hd queue)) + 1)
      \<and> (\<forall>p t. route self p t \<longrightarrow> length p < length (snd (hd queue)) \<longrightarrow> t \<in> set visited)
      \<and> (\<forall>p t. route self p t \<longrightarrow> length p = length (snd (hd queue)) \<longrightarrow> t \<notin> set visited \<longrightarrow>
            (\<exists>q. (t, q) \<in> set queue \<and> length q = length p)))"

lemma route_initial: "route self p t \<Longrightarrow> length p \<le> 1 \<Longrightarrow> p = [initial_state self] \<and> t = initial_state self"
  by (cases p) (auto simp: route_def)

lemma route_last_step:
  assumes "route self p t" and "2 \<le> length p"
  obtains p' u where "p = p' @ [t]" and "route self p' u" and "t \<in> set (successors self u)"
proof -
  from assms have ne: "p \<noteq> []" and t: "last p = t" and c: "swap_chain self p"
    and h: "hd p = initial_state self"
    by (simp_all add: route_def)
  define p' where "p' = butlast p"
  from ne t have p: "p = p' @ [t]" unfolding p'_def by (metis append_butlast_last_id)
  from assms(2) p have ne': "p' \<noteq> []" by (cases p') auto
  from c have "swap_chain self p' \<and> t \<in> set (successors self (last p'))"
    using ne' by (subst (asm) p) (simp add: swap_chain_def successively_append_iff)
  moreover from h ne' have "hd p' = initial_state self" by (subst (asm) p) simp
  ultimately have "route self p' (last p')" and "t \<in> set (successors self (last p'))"
    using ne' by (simp_all add: route_def)
  with p show thesis by (rule that)
qed

lemma level_invariant_initial:
  "level_invariant self [(initial_state self, [initial_state self])] []"
  unfolding level_invariant_def
proof (intro disjI2 conjI allI impI ballI)
  show "sorted (map (length \<circ> snd) [(initial_state self, [initial_state self])])" by simp
  show "length (snd entry) \<le> length (snd (hd [(initial_state self, [initial_state self])])) + 1"
    if "entry \<in> set [(initial_state self, [initial_state self])]" for entry
    using that by simp
  show "t \<in> set []"
    if "route self p t" "length p < length (snd (hd [(initial_state self, [initial_state self])]))"
    for p t
    using that by (simp add: route_def)
  show "\<exists>q. (t, q) \<in> set [(initial_state self, [initial_state self])] \<and> length q = length p"
    if "route self p t" "length p = length (snd (hd [(initial_state self, [initial_state self])]))"
    for p t
    using route_initial [OF that(1)] that(2) by simp
qed

lemma sorted_map_constant: "\<forall>x \<in> set xs. f x = (c :: nat) \<Longrightarrow> sorted (map f xs)"
  by (induction xs) auto

lemma level_invariant_step:
  assumes lv: "level_invariant self ((s, p) # rest) visited" and ne: "p \<noteq> []"
    and fi: "frontier_invariant self (set (rest @ new)) visited'"
    and sub: "set visited \<subseteq> set visited'" and sv: "s \<in> set visited'"
    and new: "\<forall>entry \<in> set new. length (snd entry) = length p + 1"
  shows "level_invariant self (rest @ new) visited'"
proof (cases "rest @ new = []")
  case True
  then show ?thesis by (simp add: level_invariant_def)
next
  case False
  define k where "k = length p"
  define k' where "k' = length (snd (hd (rest @ new)))"
  from lv have srt: "sorted (map (length \<circ> snd) rest)"
    and low: "\<forall>entry \<in> set rest. k \<le> length (snd entry)"
    and high: "\<forall>entry \<in> set rest. length (snd entry) \<le> k + 1"
    and shorter: "\<And>q t. route self q t \<Longrightarrow> length q < k \<Longrightarrow> t \<in> set visited"
    and level: "\<And>q t. route self q t \<Longrightarrow> length q = k \<Longrightarrow> t \<notin> set visited \<Longrightarrow>
        \<exists>q'. (t, q') \<in> set ((s, p) # rest) \<and> length q' = length q"
    unfolding level_invariant_def k_def by simp_all
  have new': "\<forall>entry \<in> set new. length (snd entry) = k + 1"
    using new by (simp add: k_def)
  have "sorted (map (length \<circ> snd) new)"
    using new' by (intro sorted_map_constant [where c = "k + 1"]) simp
  with srt high new' have srt': "sorted (map (length \<circ> snd) (rest @ new))"
    by (auto simp: sorted_append)
  have high': "\<forall>entry \<in> set (rest @ new). length (snd entry) \<le> k + 1"
    using high new' by auto
  have low': "\<forall>entry \<in> set (rest @ new). k \<le> length (snd entry)"
    using low new' by auto
  from False obtain e es where cons: "rest @ new = e # es" by (cases "rest @ new") auto
  then have hd: "hd (rest @ new) = e" by simp
  have front: "\<forall>entry \<in> set (rest @ new). k' \<le> length (snd entry)"
    using srt' unfolding k'_def cons by auto
  have "e \<in> set (rest @ new)" unfolding cons by simp
  with low' high' have k': "k \<le> k'" "k' \<le> k + 1"
    unfolding k'_def hd by auto
  have kept: "(t, q') \<in> set rest"
    if "(t, q') \<in> set ((s, p) # rest)" "t \<notin> set visited'" for t q'
    using that sv by auto
  have shorter': "t \<in> set visited'" if r: "route self q t" and l: "length q < k'" for q t
  proof (cases "length q < k")
    case True
    with r have "t \<in> set visited" by (rule shorter)
    with sub show ?thesis by blast
  next
    case False
    with l k' have lq: "length q = k" and up: "k' = k + 1" by simp_all
    show ?thesis
    proof (rule ccontr)
      assume nv: "t \<notin> set visited'"
      with sub have "t \<notin> set visited" by blast
      with r lq obtain q' where "(t, q') \<in> set ((s, p) # rest)" "length q' = length q"
        using level by blast
      with nv have "(t, q') \<in> set (rest @ new)" and "length q' = k"
        using kept lq by auto
      with front have "k' \<le> k" by fastforce
      with up show False by simp
    qed
  qed
  have level': "\<exists>q'. (t, q') \<in> set (rest @ new) \<and> length q' = length q"
    if r: "route self q t" and l: "length q = k'" and nv: "t \<notin> set visited'" for q t
  proof (cases "k' = k")
    case True
    from nv sub have "t \<notin> set visited" by blast
    with r l True obtain q' where "(t, q') \<in> set ((s, p) # rest)" "length q' = length q"
      using level by blast
    with nv kept show ?thesis by auto
  next
    case False
    with k' have up: "k' = k + 1" by simp
    have "1 \<le> k"
      using ne by (cases p) (simp_all add: k_def)
    with l up have "2 \<le> length q" by simp
    with r obtain q0 u where q: "q = q0 @ [t]" and r0: "route self q0 u"
      and succ: "t \<in> set (successors self u)"
      by (rule route_last_step)
    from q l up have "length q0 < k'" by simp
    with r0 have "u \<in> set visited'" by (rule shorter')
    from frontier_invariantD(6) [OF fi this succ] nv
    have "t \<in> fst ` set (rest @ new)" by blast
    then obtain q' where in_queue: "(t, q') \<in> set (rest @ new)" by fastforce
    with front high' have "k' \<le> length q'" "length q' \<le> k + 1" by fastforce+
    with up l have "length q' = length q" by simp
    with in_queue show ?thesis by blast
  qed
  show ?thesis
    unfolding level_invariant_def
  proof (intro disjI2 conjI allI impI ballI)
    show "sorted (map (length \<circ> snd) (rest @ new))" by (rule srt')
    show "length (snd entry) \<le> length (snd (hd (rest @ new))) + 1"
      if "entry \<in> set (rest @ new)" for entry
      using that high' k'(1) unfolding k'_def by fastforce
    show "t \<in> set visited'"
      if "route self q t" "length q < length (snd (hd (rest @ new)))" for q t
      using that shorter' unfolding k'_def by blast
    show "\<exists>q'. (t, q') \<in> set (rest @ new) \<and> length q' = length q"
      if "route self q t" "length q = length (snd (hd (rest @ new)))" "t \<notin> set visited'" for q t
      using that level' unfolding k'_def by blast
  qed
qed


lemma bfs_loop_shortest:
  "frontier_invariant self (set queue) visited \<Longrightarrow> level_invariant self queue visited \<Longrightarrow>
     bfs_loop self queue visited = Some (v, p) \<Longrightarrow> route self q (goal_state self) \<Longrightarrow>
     length p \<le> length q"
proof (induction self queue visited rule: bfs_loop.induct)
  case (1 self queue visited)
  note fi = "1.prems"(1) and lv = "1.prems"(2) and result = "1.prems"(3) and r = "1.prems"(4)
  show ?case
  proof (cases queue)
    case Nil
    with result show ?thesis by (simp add: bfs_loop_Nil)
  next
    case (Cons entry rest)
    obtain state path where entry: "(state, path) = entry" by (cases entry) simp
    then have queue: "queue = (state, path) # rest" using Cons by simp
    from fi have fi': "frontier_invariant self (insert (state, path) (set rest)) visited"
      by (simp add: queue)
    have "entry_invariant self visited (state, path)"
      by (rule frontier_invariantD(4) [OF fi']) simp
    then have ne: "path \<noteq> []" by (simp add: entry_invariant_def)
    from lv have lv': "level_invariant self ((state, path) # rest) visited"
      by (simp add: queue)
    consider (old) "state \<in> set visited"
      | (goal) "state \<notin> set visited" "state = goal_state self"
      | (new) "state \<notin> set visited" "state \<noteq> goal_state self"
      by blast
    then show ?thesis
    proof cases
      case old
      from fi' old have a: "frontier_invariant self (set rest) visited"
        by (rule frontier_invariant_skip)
      then have a': "frontier_invariant self (set (rest @ [])) visited" by simp
      have "level_invariant self (rest @ []) visited"
        by (rule level_invariant_step [OF lv' ne a' _ old]) simp_all
      then have b: "level_invariant self rest visited" by simp
      from result have c: "bfs_loop self rest visited = Some (v, p)"
        by (simp add: queue bfs_loop_old old)
      from "1.IH"(1) [OF Cons entry old a b c r] show ?thesis .
    next
      case goal
      from result have "p = path"
        unfolding queue using bfs_loop_goal [OF goal, of path rest] by simp
      moreover have "\<not> length q < length path"
      proof
        assume "length q < length path"
        with lv' r have "goal_state self \<in> set visited"
          by (simp add: level_invariant_def)
        with goal show False by simp
      qed
      ultimately show ?thesis by simp
    next
      case new
      let ?new = "map (\<lambda>t. (t, path @ [t])) (successors self state)"
      from fi' new have "frontier_invariant self
          (set rest \<union> (\<lambda>t. (t, path @ [t])) ` set (successors self state)) (visited @ [state])"
        by (rule frontier_invariant_expand)
      then have a: "frontier_invariant self (set (rest @ ?new)) (visited @ [state])"
        by simp
      have b: "level_invariant self (rest @ ?new) (visited @ [state])"
        by (rule level_invariant_step [OF lv' ne a]) auto
      from result have c: "bfs_loop self (rest @ ?new) (visited @ [state]) = Some (v, p)"
        by (simp add: queue bfs_loop_new new)
      from "1.IH"(2) [OF Cons entry new(1) refl new(2) a b c r] show ?thesis .
    qed
  qed
qed

lemma breadth_first_search_shortest:
  assumes "breadth_first_search (new_Search initial) = Some (v, p)"
    and "route (new_Search initial) q (sort initial)"
  shows "length p \<le> length q"
proof -
  let ?self = "new_Search initial"
  have "frontier_invariant ?self {(initial_state ?self, [initial_state ?self])} []"
    by (rule frontier_invariant_initial) (simp add: new_Search_simps)
  then have "frontier_invariant ?self (set [(initial_state ?self, [initial_state ?self])]) []"
    by simp
  moreover have "level_invariant ?self [(initial_state ?self, [initial_state ?self])] []"
    by (rule level_invariant_initial)
  moreover have "bfs_loop ?self [(initial_state ?self, [initial_state ?self])] [] = Some (v, p)"
    using assms(1) by (simp add: breadth_first_search_def)
  moreover have "route ?self q (goal_state ?self)"
    using assms(2) by (simp add: new_Search_simps)
  ultimately show ?thesis by (rule bfs_loop_shortest)
qed

text \<open>
  C2. The path returned by breadth-first search has at most as many transitions (one
  less than its entries) as the path returned by any of the five frontier strategies
  from the same initial sequence. Both paths are non-empty.
\<close>

theorem breadth_first_path_shortest:
  assumes "breadth_first_search (new_Search initial) = Some (v, p)"
    and "Inr (Some (v', p')) \<in> set (frontier_strategies (new_Search initial))"
  shows "p \<noteq> [] \<and> p' \<noteq> [] \<and> length p - 1 \<le> length p' - 1"
proof -
  from frontier_strategies_result [OF assms(2)]
  have p': "p' \<noteq> []" "hd p' = initial" "last p' = sort initial"
    "swap_chain (new_Search initial) p'"
    by auto
  then have "route (new_Search initial) p' (sort initial)"
    by (simp add: route_def new_Search_simps)
  with assms(1) have "length p \<le> length p'" by (rule breadth_first_search_shortest)
  moreover have "Inr (Some (v, p)) \<in> set (frontier_strategies (new_Search initial))"
    using assms(1) by (simp add: frontier_strategies_def)
  from frontier_strategies_result [OF this] have "p \<noteq> []" by auto
  ultimately show ?thesis using p'(1) by simp
qed

theorem breadth_first_path_shortest_witness:
  "breadth_first_search (new_Search [3, 1, 2]) =
     Some ([[3, 1, 2], [1, 3, 2], [3, 2, 1], [1, 2, 3]], [[3, 1, 2], [1, 3, 2], [1, 2, 3]])
   \<and> Inr (Some ([[3, 1, 2], [3, 2, 1], [2, 3, 1], [2, 1, 3], [1, 2, 3]],
                [[3, 1, 2], [3, 2, 1], [2, 3, 1], [2, 1, 3], [1, 2, 3]]))
       \<in> set (frontier_strategies (new_Search [3, 1, 2]))
   \<and> length [[3, 1, 2], [1, 3, 2], [1, 2, 3 :: int]] - 1
       \<le> length [[3, 1, 2], [3, 2, 1], [2, 3, 1], [2, 1, 3], [1, 2, 3 :: int]] - 1"
proof -
  have m: "Inr (Some ([[3, 1, 2], [3, 2, 1], [2, 3, 1], [2, 1, 3], [1, 2, 3]],
                [[3, 1, 2], [3, 2, 1], [2, 3, 1], [2, 1, 3], [1, 2, 3]]))
       \<in> set (frontier_strategies (new_Search [3, 1, 2]))"
    by (simp add: frontier_strategies_def run_312)
  from breadth_first_path_shortest [OF run_312(1) m] run_312(1) m
  show ?thesis by blast
qed

end
